theory Spec2Isabelle
  imports Main "HOL-Library.Word" "HOL-Library.Multiset"
begin

unbundle bit_operations_syntax

section \<open>CBForest: revision tree (RevTree.cc) and tagged value encoder (EncodingWriter.cc)\<close>

subsection \<open>Data model\<close>

text \<open>
  A \<open>slice\<close> of the source is a pointer and a size. Its content is a byte list; where the
  source tests \<open>buf\<close> against NULL the slice is an option, \<open>None\<close> being the null slice.
  A \<open>revid\<close> is a slice that the code of RevTree.cc only compares, copies and truncates to
  size 0, so it is a byte list.
\<close>

type_synonym bytes = "8 word list"
type_synonym slice = "bytes option"

text \<open>
  The constants of \<open>enum Revision::Flags\<close> and \<open>Revision::kNoParent\<close> are declared in
  RevTree.hh, which is not part of the sources at hand. They are parameters of the model.
\<close>

record constants =
  kLeaf :: "8 word"
  kDeleted :: "8 word"
  kHasAttachments :: "8 word"
  kNew :: "8 word"
  kNoParent :: "16 word"

record Revision =
  revID :: bytes
  sequence :: "64 word"
  body :: slice
  oldBodyOffset :: "64 word"
  flags :: "8 word"
  parentIndex :: "16 word"
  deltaRefIndex :: "16 word"

text \<open>
  The tree. The arena \<open>_insertedData\<close> only keeps copied buffers alive; with slices as
  values it has no content of its own and is left out. A \<open>Revision*\<close> of the source is
  the index of the revision in \<open>revs\<close>; NULL is \<open>None\<close>.
\<close>

record RevTree =
  bodyOffset :: "64 word"
  sortedFlag :: bool
  changed :: bool
  unknown :: bool
  revs :: "Revision list"

datatype error =
    AssertionFailed
  | OutOfBounds
  | CorruptRevisionData
  | OutputTooLarge
  | OutOfFuel

text \<open>
  Modelled from the spec: the flag accessors of Revision are declared in RevTree.hh, not part
  of the sources at hand. A flag is set when its bit is; a revision is compressed when its
  \<open>deltaRefIndex\<close> is not the sentinel.
\<close>

definition isLeaf :: "constants \<Rightarrow> Revision \<Rightarrow> bool" where
  "isLeaf K r = (flags r AND kLeaf K \<noteq> 0)"

definition isDeleted :: "constants \<Rightarrow> Revision \<Rightarrow> bool" where
  "isDeleted K r = (flags r AND kDeleted K \<noteq> 0)"

definition addFlag :: "8 word \<Rightarrow> Revision \<Rightarrow> Revision" where
  "addFlag f r = r\<lparr>flags := flags r OR f\<rparr>"

definition clearFlag :: "8 word \<Rightarrow> Revision \<Rightarrow> Revision" where
  "clearFlag f r = r\<lparr>flags := flags r AND NOT f\<rparr>"

definition isCompressed :: "constants \<Rightarrow> Revision \<Rightarrow> bool" where
  "isCompressed K r = (deltaRefIndex r \<noteq> kNoParent K)"

subsection \<open>Accessors\<close>

text \<open>\<open>RevTree::get(revid)\<close>: the loop over \<open>_revs\<close>, then the assertion.\<close>

fun findRev :: "bytes \<Rightarrow> Revision list \<Rightarrow> nat \<Rightarrow> nat option" where
  "findRev rid [] i = None"
| "findRev rid (r # rs) i = (if revID r = rid then Some i else findRev rid rs (Suc i))"

definition get :: "RevTree \<Rightarrow> bytes \<Rightarrow> error + nat option" where
  "get t rid =
     (case findRev rid (revs t) 0 of
        Some i \<Rightarrow> Inr (Some i)
      | None \<Rightarrow> if unknown t then Inl AssertionFailed else Inr None)"

subsection \<open>Insertion\<close>

text \<open>\<open>RevTree::_insert\<close>: no checks, always inserts. Returns the index of the new revision.\<close>

definition newRevision :: "constants \<Rightarrow> bytes \<Rightarrow> slice \<Rightarrow> bool \<Rightarrow> bool \<Rightarrow> Revision" where
  "newRevision K rid bdy deleted hasAttachments =
     (let r0 = \<lparr>revID = rid, sequence = 0, body = bdy, oldBodyOffset = 0,
                flags = kLeaf K OR kNew K,
                parentIndex = kNoParent K, deltaRefIndex = kNoParent K\<rparr>;
          r1 = (if deleted then addFlag (kDeleted K) r0 else r0);
          r2 = (if hasAttachments then addFlag (kHasAttachments K) r1 else r1)
      in r2)"

definition insert_raw ::
  "constants \<Rightarrow> RevTree \<Rightarrow> bytes \<Rightarrow> slice \<Rightarrow> nat option \<Rightarrow> bool \<Rightarrow> bool
     \<Rightarrow> error + (nat \<times> RevTree)" where
  "insert_raw K t rid bdy parentRev deleted hasAttachments =
     (if unknown t then Inl AssertionFailed
      else
        let newRev = newRevision K rid bdy deleted hasAttachments in
        (case parentRev of
           None \<Rightarrow>
             let rs = revs t @ [newRev]
             in Inr (length rs - 1,
                     t\<lparr>revs := rs, changed := True,
                       sortedFlag := (if length rs > 1 then False else sortedFlag t)\<rparr>)
         | Some p \<Rightarrow>
             if \<not> p < length (revs t) then Inl AssertionFailed
             else
               let newRev' = newRev\<lparr>parentIndex := of_nat p\<rparr>;
                   rs = (revs t)[p := clearFlag (kLeaf K) (revs t ! p)] @ [newRev']
               in Inr (length rs - 1,
                       t\<lparr>revs := rs, changed := True,
                         sortedFlag := (if length rs > 1 then False else sortedFlag t)\<rparr>)))"

text \<open>
  \<open>RevTree::insert\<close> with the parent given as a revision. The result is the returned
  pointer, the HTTP status written through \<open>httpStatus\<close>, and the tree; the last two
  steps (the generation check and the insertion) are \<open>insert_checked\<close>.
  \<open>revid::generation\<close> is declared outside the sources at hand and is the parameter \<open>gen\<close>;
  it is an unsigned 32-bit value, so \<open>parentGen + 1\<close> wraps.
\<close>

definition insert_checked ::
  "constants \<Rightarrow> RevTree \<Rightarrow> bytes \<Rightarrow> slice \<Rightarrow> bool \<Rightarrow> bool \<Rightarrow> nat option
     \<Rightarrow> 32 word \<Rightarrow> 32 word \<Rightarrow> error + (nat option \<times> int \<times> RevTree)" where
  "insert_checked K t rid dat deleted hasAttachments parent newGen parentGen =
     (if newGen \<noteq> parentGen + 1 then Inr (None, 400, t)
      else
        (case insert_raw K t rid dat parent deleted hasAttachments of
           Inl e \<Rightarrow> Inl e
         | Inr (i, t') \<Rightarrow> Inr (Some i, if deleted then 200 else 201, t')))"

definition insert_rev ::
  "constants \<Rightarrow> (bytes \<Rightarrow> 32 word) \<Rightarrow> RevTree \<Rightarrow> bytes \<Rightarrow> slice \<Rightarrow> bool \<Rightarrow> bool
     \<Rightarrow> nat option \<Rightarrow> bool \<Rightarrow> error + (nat option \<times> int \<times> RevTree)" where
  "insert_rev K gen t rid dat deleted hasAttachments parent allowConflict =
     (let newGen = gen rid in
      if newGen = 0 then Inr (None, 400, t)
      else
        (case get t rid of
           Inl e \<Rightarrow> Inl e
         | Inr (Some _) \<Rightarrow> Inr (None, 200, t)
         | Inr None \<Rightarrow>
             (case parent of
                Some p \<Rightarrow>
                  if \<not> p < length (revs t) then Inl OutOfBounds
                  else if \<not> allowConflict \<and> \<not> isLeaf K (revs t ! p) then Inr (None, 409, t)
                  else insert_checked K t rid dat deleted hasAttachments parent newGen
                         (gen (revID (revs t ! p)))
              | None \<Rightarrow>
                  if \<not> allowConflict \<and> length (revs t) > 0 then Inr (None, 409, t)
                  else insert_checked K t rid dat deleted hasAttachments parent newGen 0)))"

text \<open>\<open>RevTree::insert\<close> with the parent given by its revision ID (a null slice for none).\<close>

definition insert_revid ::
  "constants \<Rightarrow> (bytes \<Rightarrow> 32 word) \<Rightarrow> RevTree \<Rightarrow> bytes \<Rightarrow> slice \<Rightarrow> bool \<Rightarrow> bool
     \<Rightarrow> bytes option \<Rightarrow> bool \<Rightarrow> error + (nat option \<times> int \<times> RevTree)" where
  "insert_revid K gen t rid bdy deleted hasAttachments parentRevID allowConflict =
     (case parentRevID of
        None \<Rightarrow> insert_rev K gen t rid bdy deleted hasAttachments None allowConflict
      | Some prid \<Rightarrow>
          (case get t prid of
             Inl e \<Rightarrow> Inl e
           | Inr None \<Rightarrow> Inr (None, 404, t)
           | Inr (Some p) \<Rightarrow>
               insert_rev K gen t rid bdy deleted hasAttachments (Some p) allowConflict))"


text \<open>The revision appended by \<open>_insert\<close>, and the parent losing its leaf flag.\<close>

definition insertedRev :: "constants \<Rightarrow> bytes \<Rightarrow> slice \<Rightarrow> bool \<Rightarrow> bool \<Rightarrow> nat option \<Rightarrow> Revision" where
  "insertedRev K rid bdy deleted att parent =
     (newRevision K rid bdy deleted att)
       \<lparr>parentIndex := (case parent of None \<Rightarrow> kNoParent K | Some p \<Rightarrow> of_nat p)\<rparr>"

definition unleaf :: "constants \<Rightarrow> nat option \<Rightarrow> Revision list \<Rightarrow> Revision list" where
  "unleaf K parent rs =
     (case parent of None \<Rightarrow> rs | Some p \<Rightarrow> rs[p := clearFlag (kLeaf K) (rs ! p)])"


text \<open>The status written through \<open>httpStatus\<close>, when the call returns.\<close>

definition httpStatus :: "error + (nat option \<times> int \<times> RevTree) \<Rightarrow> int option" where
  "httpStatus r = (case r of Inl e \<Rightarrow> None | Inr (p, st, t) \<Rightarrow> Some st)"


text \<open>
  The delta algorithm (\<open>CreateDelta\<close> and \<open>ApplyDelta\<close> of Delta.hh) is an external
  collaborator: both take the reference first and return a null slice on failure.
\<close>

record delta =
  CreateDelta :: "bytes \<Rightarrow> bytes \<Rightarrow> slice"
  ApplyDelta :: "bytes \<Rightarrow> bytes \<Rightarrow> slice"

text \<open>\<open>RevTree::get(unsigned)\<close> with its two assertions.\<close>

definition get_index :: "RevTree \<Rightarrow> nat \<Rightarrow> error + nat" where
  "get_index t i =
     (if unknown t then Inl AssertionFailed
      else if \<not> i < length (revs t) then Inl AssertionFailed
      else Inr i)"

text \<open>\<open>Revision::index\<close>: the position of the revision in its owner, asserted in range.\<close>

definition index :: "RevTree \<Rightarrow> nat \<Rightarrow> error + nat" where
  "index t i = (if i < length (revs t) then Inr i else Inl AssertionFailed)"

text \<open>\<open>Revision::deltaReference\<close>, for the revision at a valid position.\<close>

definition deltaReference :: "constants \<Rightarrow> RevTree \<Rightarrow> nat \<Rightarrow> error + nat option" where
  "deltaReference K t i =
     (if deltaRefIndex (revs t ! i) = kNoParent K then Inr None
      else (case get_index t (unat (deltaRefIndex (revs t ! i))) of
              Inl e \<Rightarrow> Inl e
            | Inr j \<Rightarrow> Inr (Some j)))"

text \<open>
  Modelled from the spec: \<open>Revision::inlineBody\<close> is declared in RevTree.hh, not part of
  the sources at hand. It is ``the reference's inline body if present'': the body of a
  revision that is not compressed, and null otherwise.
\<close>

definition inlineBody :: "constants \<Rightarrow> Revision \<Rightarrow> slice" where
  "inlineBody K r = (if isCompressed K r then None else body r)"

text \<open>
  \<open>RevTree::readBodyOfRevision\<close>; \<open>Revision::readBody\<close> is declared in RevTree.hh and,
  by the spec, reads the body through the owner, so it is the recursive call. The recursion
  follows the delta references and need not end on a cyclic chain: the first argument bounds
  its depth, and \<open>OutOfFuel\<close> says the bound was reached.
\<close>

fun readBodyOfRevision :: "nat \<Rightarrow> constants \<Rightarrow> delta \<Rightarrow> RevTree \<Rightarrow> nat \<Rightarrow> error + slice" where
  "readBodyOfRevision 0 K D t i = Inl OutOfFuel"
| "readBodyOfRevision (Suc n) K D t i =
     (if \<not> i < length (revs t) then Inl OutOfBounds
      else
        (case body (revs t ! i) of
           None \<Rightarrow> Inr None
         | Some b \<Rightarrow>
             (case deltaReference K t i of
                Inl e \<Rightarrow> Inl e
              | Inr None \<Rightarrow> Inr (Some b)
              | Inr (Some j) \<Rightarrow>
                  (case inlineBody K (revs t ! j) of
                     Some inlineReference \<Rightarrow> Inr (ApplyDelta D inlineReference b)
                   | None \<Rightarrow>
                       (case readBodyOfRevision n K D t j of
                          Inl e \<Rightarrow> Inl e
                        | Inr None \<Rightarrow> Inr None
                        | Inr (Some loadedReference) \<Rightarrow>
                            Inr (ApplyDelta D loadedReference b))))))"

text \<open>\<open>RevTree::replaceBody\<close>, on the revision at a valid position.\<close>

definition replaceBody :: "RevTree \<Rightarrow> nat \<Rightarrow> slice \<Rightarrow> error + RevTree" where
  "replaceBody t i bdy =
     (case bdy of
        Some b \<Rightarrow>
          Inr (t\<lparr>revs := (revs t)[i := (revs t ! i)\<lparr>body := bdy\<rparr>], changed := True\<rparr>)
      | None \<Rightarrow>
          if body (revs t ! i) = None then Inr t
          else if \<not> bodyOffset t > 0 then Inl AssertionFailed
          else Inr (t\<lparr>revs := (revs t)[i := (revs t ! i)\<lparr>oldBodyOffset := bodyOffset t,
                                                           body := bdy\<rparr>],
                      changed := True\<rparr>))"

text \<open>\<open>RevTree::decompress\<close>.\<close>

definition decompress ::
  "nat \<Rightarrow> constants \<Rightarrow> delta \<Rightarrow> RevTree \<Rightarrow> nat \<Rightarrow> error + (bool \<times> RevTree)" where
  "decompress fuel K D t i =
     (if \<not> i < length (revs t) then Inl OutOfBounds
      else if \<not> isCompressed K (revs t ! i) then Inr (True, t)
      else
        (case readBodyOfRevision fuel K D t i of
           Inl e \<Rightarrow> Inl e
         | Inr None \<Rightarrow> Inr (False, t)
         | Inr (Some b) \<Rightarrow>
             (case replaceBody t i (Some b) of
                Inl e \<Rightarrow> Inl e
              | Inr t' \<Rightarrow>
                  Inr (True, t'\<lparr>revs := (revs t')[i := (revs t' ! i)
                                           \<lparr>deltaRefIndex := kNoParent K\<rparr>]\<rparr>))))"

text \<open>
  \<open>RevTree::removeBody\<close>. Its loop visits the positions \<open>js\<close> of \<open>_revs\<close> in order and
  gives false as soon as a dependent revision cannot be expanded; revisions expanded before
  that stay expanded.
\<close>

fun expandDependents ::
  "nat \<Rightarrow> constants \<Rightarrow> delta \<Rightarrow> bool \<Rightarrow> nat \<Rightarrow> nat list \<Rightarrow> RevTree
     \<Rightarrow> error + (bool \<times> RevTree)" where
  "expandDependents fuel K D allowExpansion idx [] t = Inr (True, t)"
| "expandDependents fuel K D allowExpansion idx (j # js) t =
     (if \<not> j < length (revs t) then Inl OutOfBounds
      else if unat (deltaRefIndex (revs t ! j)) = idx then
        (if \<not> allowExpansion then Inr (False, t)
         else (case decompress fuel K D t j of
                 Inl e \<Rightarrow> Inl e
               | Inr (ok, t') \<Rightarrow>
                   if \<not> ok then Inr (False, t')
                   else expandDependents fuel K D allowExpansion idx js t'))
      else expandDependents fuel K D allowExpansion idx js t)"

definition removeBody ::
  "nat \<Rightarrow> constants \<Rightarrow> delta \<Rightarrow> RevTree \<Rightarrow> nat \<Rightarrow> bool \<Rightarrow> error + (bool \<times> RevTree)" where
  "removeBody fuel K D t i allowExpansion =
     (if \<not> i < length (revs t) then Inl OutOfBounds
      else if body (revs t ! i) = None then Inr (True, t)
      else
        (case index t i of
           Inl e \<Rightarrow> Inl e
         | Inr idx \<Rightarrow>
             (case expandDependents fuel K D allowExpansion idx [0 ..< length (revs t)] t of
                Inl e \<Rightarrow> Inl e
              | Inr (False, t') \<Rightarrow> Inr (False, t')
              | Inr (True, t') \<Rightarrow>
                  (case replaceBody t' i None of
                     Inl e \<Rightarrow> Inl e
                   | Inr t'' \<Rightarrow> Inr (True, t'')))))"

text \<open>
  \<open>Revision::generateZDeltaFrom\<close>, called on the target with the reference; both are
  revisions of the same tree.
\<close>

definition generateZDeltaFrom ::
  "nat \<Rightarrow> constants \<Rightarrow> delta \<Rightarrow> RevTree \<Rightarrow> nat \<Rightarrow> nat \<Rightarrow> error + slice" where
  "generateZDeltaFrom fuel K D t target reference =
     (if reference = target then Inl AssertionFailed
      else
        (case index t reference of
           Inl e \<Rightarrow> Inl e
         | Inr ridx \<Rightarrow>
            if isCompressed K (revs t ! target) \<and> unat (deltaRefIndex (revs t ! target)) = ridx
            then Inr (body (revs t ! target))
            else
              (case readBodyOfRevision fuel K D t target of
                 Inl e \<Rightarrow> Inl e
               | Inr targetData \<Rightarrow>
                   (case readBodyOfRevision fuel K D t reference of
                      Inl e \<Rightarrow> Inl e
                    | Inr referenceData \<Rightarrow>
                        (case (targetData, referenceData) of
                           (Some td, Some rd) \<Rightarrow> Inr (CreateDelta D rd td)
                         | _ \<Rightarrow> Inr None)))))"

text \<open>
  The loop of \<open>RevTree::compress\<close> that is to exclude a cycle: true when it returns false
  from \<open>compress\<close>. It follows the delta references of \<open>r\<close> while they are compressed.
\<close>

fun refusesCycle :: "nat \<Rightarrow> constants \<Rightarrow> RevTree \<Rightarrow> nat \<Rightarrow> nat \<Rightarrow> error + bool" where
  "refusesCycle 0 K t r target = Inl OutOfFuel"
| "refusesCycle (Suc n) K t r target =
     (if \<not> r < length (revs t) then Inl OutOfBounds
      else if \<not> isCompressed K (revs t ! r) then Inr False
      else if r = target then Inr True
      else
        (case deltaReference K t r of
           Inl e \<Rightarrow> Inl e
         | Inr None \<Rightarrow> Inl OutOfBounds
         | Inr (Some r') \<Rightarrow> refusesCycle n K t r' target))"

text \<open>\<open>RevTree::compress\<close>.\<close>

definition compress ::
  "nat \<Rightarrow> constants \<Rightarrow> delta \<Rightarrow> RevTree \<Rightarrow> nat \<Rightarrow> nat \<Rightarrow> error + (bool \<times> RevTree)" where
  "compress fuel K D t target reference =
     (if \<not> target < length (revs t) then Inl OutOfBounds
      else if isCompressed K (revs t ! target) then Inr (True, t)
      else
        (case refusesCycle fuel K t reference target of
           Inl e \<Rightarrow> Inl e
         | Inr True \<Rightarrow> Inr (False, t)
         | Inr False \<Rightarrow>
             (case generateZDeltaFrom fuel K D t target reference of
                Inl e \<Rightarrow> Inl e
              | Inr None \<Rightarrow> Inr (False, t)
              | Inr (Some d) \<Rightarrow>
                  (case replaceBody t target (Some d) of
                     Inl e \<Rightarrow> Inl e
                   | Inr t' \<Rightarrow>
                       (case index t' reference of
                          Inl e \<Rightarrow> Inl e
                        | Inr ridx \<Rightarrow>
                            Inr (True, t'\<lparr>revs := (revs t')[target := (revs t' ! target)
                                             \<lparr>deltaRefIndex := of_nat ridx\<rparr>]\<rparr>))))))"

text \<open>
  Whether the delta references from a revision reach the sentinel within \<open>n\<close> steps: on a
  tree of \<open>n\<close> revisions, whether the chain is free of cycles.
\<close>

fun deltaChainEnds :: "nat \<Rightarrow> constants \<Rightarrow> RevTree \<Rightarrow> nat \<Rightarrow> bool" where
  "deltaChainEnds 0 K t i = False"
| "deltaChainEnds (Suc n) K t i =
     (i < length (revs t) \<and>
      (deltaRefIndex (revs t ! i) = kNoParent K \<or>
       deltaChainEnds n K t (unat (deltaRefIndex (revs t ! i)))))"

subsection \<open>Tagged value encoder: strings\<close>

text \<open>
  The varint codec (varint.hh) is an external collaborator: \<open>PutUVarInt\<close> gives the bytes of
  a number, \<open>GetUVarInt\<close> reads a number from the front of a buffer and gives the count of
  bytes read with it, \<open>SizeOfVarInt\<close> predicts the width.
\<close>

record varint =
  PutUVarInt :: "64 word \<Rightarrow> bytes"
  GetUVarInt :: "bytes \<Rightarrow> nat \<times> 64 word"
  SizeOfVarInt :: "64 word \<Rightarrow> nat"

text \<open>
  The type codes of \<open>value::typeCode\<close> are declared outside the sources at hand; those that
  writing a string uses are parameters.
\<close>

record typecodes =
  kStringCode :: "8 word"
  kSharedStringCode :: "8 word"
  kSharedStringRefCode :: "8 word"
  kExternStringRefCode :: "8 word"

text \<open>
  One frame of the stack \<open>_states\<close> (its fields \<open>count\<close>, \<open>i\<close>, \<open>hashes\<close> and
  \<open>indexPos\<close>), and the writer. \<open>_out\<close> is the bytes written so far;
  \<open>_externStrings\<close> is a pointer to the caller's table, null when there is none;
  \<open>_state\<close> points to the last frame of \<open>_states\<close>.
\<close>

record state =
  s_count :: "32 word"
  s_i :: "32 word"
  s_hashes :: "16 word list option"
  s_indexPos :: nat

record dataWriter =
  out :: bytes
  enableSharedStrings :: bool
  externStrings :: "bytes list option"
  maxExternStrings :: "32 word"
  externStringsLookup :: "bytes \<rightharpoonup> 32 word"
  sharedStrings :: "bytes \<rightharpoonup> nat"
  states :: "state list"

definition kMinSharedStringLength :: nat where "kMinSharedStringLength = 4"
definition kMaxSharedStringLength :: nat where "kMaxSharedStringLength = 100"
definition UINT32_MAX :: nat where "UINT32_MAX = 4294967295"

text \<open>
  Modelled from the spec: \<open>Writer::write\<close> and \<open>Writer::rewrite\<close> are defined in Writer.cc,
  not part of the sources at hand. Writing appends; rewriting overwrites in place and
  requires \<open>pos + |bytes| \<le> length()\<close>.
\<close>

definition Writer_write :: "bytes \<Rightarrow> dataWriter \<Rightarrow> dataWriter" where
  "Writer_write bs w = w\<lparr>out := out w @ bs\<rparr>"

definition Writer_rewrite :: "nat \<Rightarrow> bytes \<Rightarrow> dataWriter \<Rightarrow> error + dataWriter" where
  "Writer_rewrite pos bs w =
     (if pos + length bs \<le> length (out w)
      then Inr (w\<lparr>out := take pos (out w) @ bs @ drop (pos + length bs) (out w)\<rparr>)
      else Inl AssertionFailed)"

text \<open>
  Modelled from the spec: \<open>dataWriter::addTypeCode\<close> is declared in EncodingWriter.hh, not
  part of the sources at hand. It writes the code byte, and ``each child value increments
  \<open>state.i\<close>'' of the current frame.
\<close>

definition addTypeCode :: "8 word \<Rightarrow> dataWriter \<Rightarrow> error + dataWriter" where
  "addTypeCode code w =
     (case rev (states w) of
        [] \<Rightarrow> Inl OutOfBounds
      | s # ss \<Rightarrow> Inr ((Writer_write [code] w)\<lparr>states := rev ss @ [s\<lparr>s_i := s_i s + 1\<rparr>]\<rparr>))"

text \<open>The frames after the current one has counted a value.\<close>

definition bumped :: "dataWriter \<Rightarrow> state list" where
  "bumped w = butlast (states w) @ [(last (states w))\<lparr>s_i := s_i (last (states w)) + 1\<rparr>]"

definition addUVarint :: "varint \<Rightarrow> 64 word \<Rightarrow> dataWriter \<Rightarrow> dataWriter" where
  "addUVarint V n w = Writer_write (PutUVarInt V n) w"

text \<open>\<open>dataWriter::writeExternString\<close>.\<close>

definition writeExternString ::
  "typecodes \<Rightarrow> varint \<Rightarrow> 32 word \<Rightarrow> dataWriter \<Rightarrow> error + dataWriter" where
  "writeExternString C V externRef w =
     (if \<not> externRef > 0 then Inl AssertionFailed
      else (case addTypeCode (kExternStringRefCode C) w of
              Inl e \<Rightarrow> Inl e
            | Inr w1 \<Rightarrow> Inr (addUVarint V (ucast externRef) w1)))"

text \<open>
  \<open>dataWriter::writeString(std::string, bool)\<close>. The first part, the extern table, gives
  \<open>Some\<close> result when it has written the string. \<open>_sharedStrings[str]\<close> enters the key with
  the value 0 when it is absent.
\<close>

definition writeStringExtern ::
  "typecodes \<Rightarrow> varint \<Rightarrow> dataWriter \<Rightarrow> bytes \<Rightarrow> bool \<Rightarrow> (error + dataWriter) option" where
  "writeStringExtern C V w str canAddExtern =
     (case externStrings w of
        None \<Rightarrow> None
      | Some tbl \<Rightarrow>
          (case externStringsLookup w str of
             Some externID \<Rightarrow> Some (writeExternString C V externID w)
           | None \<Rightarrow>
               let n = (of_nat (length tbl) :: 32 word) in
               if n < maxExternStrings w \<and> canAddExtern
               then Some (writeExternString C V (n + 1)
                            (w\<lparr>externStrings := Some (tbl @ [str]),
                               externStringsLookup := (externStringsLookup w)(str \<mapsto> n + 1)\<rparr>))
               else None))"

definition writePlainString ::
  "typecodes \<Rightarrow> varint \<Rightarrow> dataWriter \<Rightarrow> bytes \<Rightarrow> error + dataWriter" where
  "writePlainString C V w str =
     (case addTypeCode (kStringCode C) w of
        Inl e \<Rightarrow> Inl e
      | Inr w1 \<Rightarrow> Inr (Writer_write str (addUVarint V (of_nat (length str)) w1)))"

definition writeString ::
  "typecodes \<Rightarrow> varint \<Rightarrow> dataWriter \<Rightarrow> bytes \<Rightarrow> bool \<Rightarrow> error + dataWriter" where
  "writeString C V w str canAddExtern =
     (let len = length str in
      case writeStringExtern C V w str canAddExtern of
        Some r \<Rightarrow> r
      | None \<Rightarrow>
          if enableSharedStrings w \<and> len \<ge> kMinSharedStringLength
               \<and> len \<le> kMaxSharedStringLength
          then
            let curOffset = length (out w) in
            if curOffset > UINT32_MAX then Inl OutputTooLarge
            else
              let (sharedOffset, w0) =
                    (case sharedStrings w str of
                       None \<Rightarrow> (0, w\<lparr>sharedStrings := (sharedStrings w)(str \<mapsto> 0)\<rparr>)
                     | Some off \<Rightarrow> (off, w))
              in
              if sharedOffset > 0 then
                (case Writer_rewrite sharedOffset [kSharedStringCode C] w0 of
                   Inl e \<Rightarrow> Inl e
                 | Inr w1 \<Rightarrow>
                     (case addTypeCode (kSharedStringRefCode C) w1 of
                        Inl e \<Rightarrow> Inl e
                      | Inr w2 \<Rightarrow> Inr (addUVarint V (of_nat (curOffset - sharedOffset)) w2)))
              else
                writePlainString C V
                  (w0\<lparr>sharedStrings := (sharedStrings w0)(str \<mapsto> curOffset)\<rparr>) str
          else writePlainString C V w str)"

text \<open>A sequence of strings written one after the other, each with its \<open>canAddExtern\<close>.\<close>

fun writeStrings ::
  "typecodes \<Rightarrow> varint \<Rightarrow> dataWriter \<Rightarrow> (bytes \<times> bool) list \<Rightarrow> error + dataWriter" where
  "writeStrings C V w [] = Inr w"
| "writeStrings C V w ((str, canAddExtern) # rest) =
     (case writeString C V w str canAddExtern of
        Inl e \<Rightarrow> Inl e
      | Inr w1 \<Rightarrow> writeStrings C V w1 rest)"

text \<open>Whether the extern table takes a string: it holds it already, or it may add it.\<close>

definition externTakes :: "dataWriter \<Rightarrow> bytes \<Rightarrow> bool \<Rightarrow> bool" where
  "externTakes w str canAddExtern =
     (case externStrings w of
        None \<Rightarrow> False
      | Some tbl \<Rightarrow>
          externStringsLookup w str \<noteq> None \<or>
          ((of_nat (length tbl) :: 32 word) < maxExternStrings w \<and> canAddExtern))"

text \<open>
  \<open>RevTree::insertHistory\<close>. Its first loop, from position \<open>idx\<close> of the history on, with
  the remaining entries \<open>hs\<close>: \<open>None\<close> when it returns -1, otherwise the position where it
  stops and the revision found there.
\<close>

fun findAncestor ::
  "(bytes \<Rightarrow> 32 word) \<Rightarrow> RevTree \<Rightarrow> bytes list \<Rightarrow> nat \<Rightarrow> 32 word
     \<Rightarrow> error + (nat \<times> nat option) option" where
  "findAncestor gen t [] idx lastGen = Inr (Some (idx, None))"
| "findAncestor gen t (h # hs) idx lastGen =
     (let g = gen h in
      if lastGen > 0 \<and> g \<noteq> lastGen - 1 then Inr None
      else
        (case get t h of
           Inl e \<Rightarrow> Inl e
         | Inr (Some p) \<Rightarrow> Inr (Some (idx, Some p))
         | Inr None \<Rightarrow> findAncestor gen t hs (Suc idx) g))"

text \<open>
  The loop \<open>while (--i > 0) parent = _insert(history[i], slice(), parent, false, false)\<close>;
  the first argument is \<open>i\<close> before the decrement.
\<close>

fun insertAncestors ::
  "constants \<Rightarrow> bytes list \<Rightarrow> nat \<Rightarrow> nat option \<Rightarrow> RevTree \<Rightarrow> error + (nat option \<times> RevTree)" where
  "insertAncestors K history 0 parent t = Inr (parent, t)"
| "insertAncestors K history (Suc j) parent t =
     (if j > 0 then
        (case insert_raw K t (history ! j) None parent False False of
           Inl e \<Rightarrow> Inl e
         | Inr (p, t') \<Rightarrow> insertAncestors K history j (Some p) t')
      else Inr (parent, t))"

definition insertHistory ::
  "constants \<Rightarrow> (bytes \<Rightarrow> 32 word) \<Rightarrow> RevTree \<Rightarrow> bytes list \<Rightarrow> slice \<Rightarrow> bool \<Rightarrow> bool
     \<Rightarrow> error + (int \<times> RevTree)" where
  "insertHistory K gen t history dat deleted hasAttachments =
     (if \<not> length history > 0 then Inl AssertionFailed
      else
        (case findAncestor gen t history 0 0 of
           Inl e \<Rightarrow> Inl e
         | Inr None \<Rightarrow> Inr (-1, t)
         | Inr (Some (commonAncestorIndex, parent)) \<Rightarrow>
             if commonAncestorIndex > 0 then
               (case insertAncestors K history commonAncestorIndex parent t of
                  Inl e \<Rightarrow> Inl e
                | Inr (parent', t') \<Rightarrow>
                    (case insert_raw K t' (history ! 0) dat parent' deleted hasAttachments of
                       Inl e \<Rightarrow> Inl e
                     | Inr (p, t'') \<Rightarrow> Inr (int commonAncestorIndex, t'')))
             else Inr (int commonAncestorIndex, t)))"

text \<open>
  What the claim about \<open>insertHistory\<close> speaks of. The generations of the entries decrease
  by 1 from one entry to the next, as far as the loop tests it: after an entry of
  generation 0 the next is not tested.
\<close>

fun preflight :: "(bytes \<Rightarrow> 32 word) \<Rightarrow> 32 word \<Rightarrow> bytes list \<Rightarrow> bool" where
  "preflight gen lastGen [] = True"
| "preflight gen lastGen (h # hs) =
     ((lastGen > 0 \<longrightarrow> gen h = lastGen - 1) \<and> preflight gen (gen h) hs)"

text \<open>
  The revisions appended for the revision IDs \<open>ids\<close>, oldest first, the first at position
  \<open>n\<close> with the given parent: each is the child of the one before it, with a null body and
  without the leaf flag, but the last, which has the given body and flags.
\<close>

fun historyChain ::
  "constants \<Rightarrow> nat \<Rightarrow> nat option \<Rightarrow> bytes list \<Rightarrow> slice \<Rightarrow> bool \<Rightarrow> bool \<Rightarrow> Revision list" where
  "historyChain K n parent [] dat deleted att = []"
| "historyChain K n parent [h] dat deleted att = [insertedRev K h dat deleted att parent]"
| "historyChain K n parent (h # h' # hs) dat deleted att =
     clearFlag (kLeaf K) (insertedRev K h None False False parent)
       # historyChain K (Suc n) (Some n) (h' # hs) dat deleted att"

subsection \<open>The encoded form of a revision\<close>

text \<open>
  \<open>struct RawRevision\<close>: the private bits of the flags byte, and the layout. The header is
  \<open>size\<close> (32 bits), \<open>parentIndex\<close> and \<open>deltaRefIndex\<close> (16 bits each), \<open>flags\<close> and
  \<open>revIDLen\<close> (a byte each), so that \<open>offsetof(RawRevision, revID)\<close> is 10; \<open>htonl\<close> and
  \<open>htons\<close> store the high byte first.
\<close>

definition kPublicPersistentFlags :: "constants \<Rightarrow> 8 word" where
  "kPublicPersistentFlags K = kLeaf K OR kDeleted K OR kHasAttachments K"

definition kHasBodyOffset :: "8 word" where "kHasBodyOffset = 0x40"
definition kHasData :: "8 word" where "kHasData = 0x80"

definition offsetof_revID :: nat where "offsetof_revID = 10"

definition be16 :: "16 word \<Rightarrow> bytes" where
  "be16 x = [ucast (drop_bit 8 x), ucast x]"

definition be32 :: "32 word \<Rightarrow> bytes" where
  "be32 x = [ucast (drop_bit 24 x), ucast (drop_bit 16 x), ucast (drop_bit 8 x), ucast x]"

text \<open>The size of a slice: 0 for the null slice.\<close>

definition slice_size :: "slice \<Rightarrow> nat" where
  "slice_size s = (case s of None \<Rightarrow> 0 | Some b \<Rightarrow> length b)"

definition slice_bytes :: "slice \<Rightarrow> bytes" where
  "slice_bytes s = (case s of None \<Rightarrow> [] | Some b \<Rightarrow> b)"

text \<open>\<open>Revision::sizeToWrite\<close>.\<close>

definition sizeToWrite :: "varint \<Rightarrow> Revision \<Rightarrow> nat" where
  "sizeToWrite V r =
     (let size = offsetof_revID + length (revID r) + SizeOfVarInt V (sequence r) in
      if slice_size (body r) > 0 then size + slice_size (body r)
      else if oldBodyOffset r > 0 then size + SizeOfVarInt V (oldBodyOffset r)
      else size)"

text \<open>
  \<open>Revision::write\<close>: the bytes stored from \<open>dst\<close> on, in the order of the layout. The
  function returns \<open>dst\<close> advanced by \<open>sizeToWrite\<close>; the bytes stored are as many when
  \<open>SizeOfVarInt\<close> is the width that \<open>PutUVarInt\<close> produces and no persistent flag is one of
  the two private bits.
\<close>

definition Revision_write :: "varint \<Rightarrow> constants \<Rightarrow> Revision \<Rightarrow> 64 word \<Rightarrow> bytes" where
  "Revision_write V K r bodyOffs =
     (let revSize = sizeToWrite V r;
          dstFlags0 = flags r AND kPublicPersistentFlags K;
          dstFlags = (if slice_size (body r) > 0 then dstFlags0 OR kHasData
                      else if oldBodyOffset r > 0 then dstFlags0 OR kHasBodyOffset
                      else dstFlags0);
          dstData = (if dstFlags AND kHasData \<noteq> 0 then slice_bytes (body r)
                     else if dstFlags AND kHasBodyOffset \<noteq> 0
                       then PutUVarInt V (if oldBodyOffset r \<noteq> 0 then oldBodyOffset r
                                          else bodyOffs)
                     else [])
      in be32 (of_nat revSize) @ be16 (parentIndex r) @ be16 (deltaRefIndex r)
         @ [dstFlags, of_nat (length (revID r))]
         @ revID r @ PutUVarInt V (sequence r) @ dstData)"

text \<open>The flags byte of an encoded revision, and the bytes after the sequence number.\<close>

definition rawFlags :: "bytes \<Rightarrow> 8 word" where
  "rawFlags raw = raw ! 8"

definition rawData :: "varint \<Rightarrow> Revision \<Rightarrow> bytes \<Rightarrow> bytes" where
  "rawData V r raw =
     drop (offsetof_revID + length (revID r) + length (PutUVarInt V (sequence r))) raw"

subsection \<open>Canonical ordering\<close>

text \<open>
  \<open>Revision::operator<\<close>: higher priority comes first. The comparison of revision IDs
  (\<open>revid::operator<\<close>) is declared outside the sources at hand and is the parameter \<open>lt\<close>.
\<close>

definition Revision_less ::
  "constants \<Rightarrow> (bytes \<Rightarrow> bytes \<Rightarrow> bool) \<Rightarrow> Revision \<Rightarrow> Revision \<Rightarrow> bool" where
  "Revision_less K lt this rev2 =
     (if isLeaf K rev2 \<noteq> isLeaf K this then isLeaf K this \<and> \<not> isLeaf K rev2
      else if isDeleted K this \<noteq> isDeleted K rev2 then \<not> isDeleted K this \<and> isDeleted K rev2
      else lt (revID rev2) (revID this))"

text \<open>
  \<open>RevTree::sort\<close>. Its first loop keeps the parent indexes in \<open>oldParents\<close> and stores the
  position of each revision in its \<open>parentIndex\<close>.
\<close>

fun setCookies :: "nat \<Rightarrow> Revision list \<Rightarrow> Revision list" where
  "setCookies idx [] = []"
| "setCookies idx (r # rs) = r\<lparr>parentIndex := of_nat idx\<rparr> # setCookies (Suc idx) rs"

text \<open>
  The second loop fills the array \<open>oldToNew\<close>, which is not initialised: an element is
  \<open>None\<close> until it is stored. Reading an element that is out of range or was never stored
  is an error.
\<close>

fun buildOldToNew ::
  "Revision list \<Rightarrow> nat \<Rightarrow> 16 word option list \<Rightarrow> error + 16 word option list" where
  "buildOldToNew [] idx oldToNew = Inr oldToNew"
| "buildOldToNew (r # rs) idx oldToNew =
     (let oldIndex = unat (parentIndex r) in
      if oldIndex < length oldToNew
      then buildOldToNew rs (Suc idx) (oldToNew[oldIndex := Some (of_nat idx)])
      else Inl OutOfBounds)"

definition readArray :: "'a option list \<Rightarrow> nat \<Rightarrow> error + 'a" where
  "readArray arr k =
     (if k < length arr then (case arr ! k of None \<Rightarrow> Inl OutOfBounds | Some v \<Rightarrow> Inr v)
      else Inl OutOfBounds)"

text \<open>The third loop runs the parent and delta reference indexes through \<open>oldToNew\<close>.\<close>

fun fixIndexes ::
  "constants \<Rightarrow> 16 word list \<Rightarrow> 16 word option list \<Rightarrow> Revision list
     \<Rightarrow> error + Revision list" where
  "fixIndexes K oldParents oldToNew [] = Inr []"
| "fixIndexes K oldParents oldToNew (r # rs) =
     (let oldIndex = unat (parentIndex r) in
      if \<not> oldIndex < length oldParents then Inl OutOfBounds
      else
        let parent = oldParents ! oldIndex in
        (case (if parent \<noteq> kNoParent K then readArray oldToNew (unat parent) else Inr parent) of
           Inl e \<Rightarrow> Inl e
         | Inr parent' \<Rightarrow>
             (case (if deltaRefIndex r \<noteq> kNoParent K
                    then readArray oldToNew (unat (deltaRefIndex r))
                    else Inr (deltaRefIndex r)) of
                Inl e \<Rightarrow> Inl e
              | Inr delta' \<Rightarrow>
                  (case fixIndexes K oldParents oldToNew rs of
                     Inl e \<Rightarrow> Inl e
                   | Inr rs' \<Rightarrow>
                       Inr (r\<lparr>parentIndex := parent', deltaRefIndex := delta'\<rparr> # rs')))))"

text \<open>
  \<open>std::sort\<close> is the parameter \<open>stdsort\<close>, applied to the comparison and the array. The
  loops count with a \<open>uint16_t\<close>, which stays below \<open>_revs.size()\<close> for ever when there
  are more than 65535 revisions.
\<close>

definition sort ::
  "constants \<Rightarrow> ((Revision \<Rightarrow> Revision \<Rightarrow> bool) \<Rightarrow> Revision list \<Rightarrow> Revision list)
     \<Rightarrow> (bytes \<Rightarrow> bytes \<Rightarrow> bool) \<Rightarrow> RevTree \<Rightarrow> error + RevTree" where
  "sort K stdsort lt t =
     (if sortedFlag t then Inr t
      else if length (revs t) > 65535 then Inl OutOfFuel
      else
        let oldParents = map parentIndex (revs t);
            revs' = stdsort (Revision_less K lt) (setCookies 0 (revs t))
        in
        if length revs' > 65535 then Inl OutOfFuel
        else
          (case buildOldToNew revs' 0 (replicate (length revs') None) of
             Inl e \<Rightarrow> Inl e
           | Inr oldToNew \<Rightarrow>
               (case fixIndexes K oldParents oldToNew revs' of
                  Inl e \<Rightarrow> Inl e
                | Inr rs \<Rightarrow> Inr (t\<lparr>revs := rs, sortedFlag := True\<rparr>))))"

text \<open>
  What the claim about \<open>sort\<close> speaks of: an index run through a renumbering, and whether
  the parent indexes from a position reach the sentinel within \<open>n\<close> steps.
\<close>

definition renumber :: "constants \<Rightarrow> (nat \<Rightarrow> nat) \<Rightarrow> 16 word \<Rightarrow> 16 word" where
  "renumber K f p = (if p = kNoParent K then p else of_nat (f (unat p)))"

fun parentChainEnds :: "nat \<Rightarrow> constants \<Rightarrow> Revision list \<Rightarrow> nat \<Rightarrow> bool" where
  "parentChainEnds 0 K rs p = False"
| "parentChainEnds (Suc n) K rs p =
     (p < length rs \<and>
      (parentIndex (rs ! p) = kNoParent K \<or> parentChainEnds n K rs (unat (parentIndex (rs ! p)))))"

text \<open>The indexes of a tree are the sentinel or positions of the tree, and no position is the sentinel.\<close>

definition indexesValid :: "constants \<Rightarrow> Revision list \<Rightarrow> bool" where
  "indexesValid K rs =
     (length rs \<le> unat (kNoParent K) \<and>
      list_all (\<lambda>r. (parentIndex r = kNoParent K \<or> unat (parentIndex r) < length rs) \<and>
                     (deltaRefIndex r = kNoParent K \<or> unat (deltaRefIndex r) < length rs)) rs)"

subsection \<open>Encoding and decoding a tree\<close>












definition encodable :: "varint \<Rightarrow> Revision \<Rightarrow> bool" where
  "encodable V r = (length (revID r) \<le> 255 \<and> sizeToWrite V r < 2 ^ 32)"




subsection \<open>Pruning\<close>
























subsection \<open>Concrete instances of the parameters\<close>

text \<open>
  Modelled from the spec: \<open>revid::generation\<close> is declared outside the sources at hand.
  ``The generation is extracted by parsing the prefix as base-10 up to the first \<open>-\<close>'';
  a revision ID without such a prefix has generation 0.
\<close>

fun parseGen :: "bytes \<Rightarrow> nat \<Rightarrow> nat" where
  "parseGen [] acc = 0"
| "parseGen (c # cs) acc =
     (if c = 0x2D then acc
      else if 0x30 \<le> c \<and> c \<le> 0x39 then parseGen cs (10 * acc + unat (c - 0x30))
      else 0)"

definition generation :: "bytes \<Rightarrow> 32 word" where
  "generation rid = of_nat (parseGen rid 0)"

text \<open>One choice of the flag bits and of the sentinel.\<close>

definition K0 :: constants where
  "K0 = \<lparr>kLeaf = 0x02, kDeleted = 0x01, kHasAttachments = 0x08, kNew = 0x04, kNoParent = 0xFFFF\<rparr>"


text \<open>The revisions \<open>1-a\<close> and its child \<open>2-b\<close>, and further revision IDs.\<close>

definition rid_1a :: bytes where "rid_1a = [0x31, 0x2D, 0x61]"
definition rid_2b :: bytes where "rid_2b = [0x32, 0x2D, 0x62]"
definition rid_2c :: bytes where "rid_2c = [0x32, 0x2D, 0x63]"
definition rid_3z :: bytes where "rid_3z = [0x33, 0x2D, 0x7A]"

definition rev_1a :: Revision where
  "rev_1a = \<lparr>revID = rid_1a, sequence = 0, body = Some [0x78], oldBodyOffset = 0, flags = 0x04,
             parentIndex = 0xFFFF, deltaRefIndex = 0xFFFF\<rparr>"

definition rev_2b :: Revision where
  "rev_2b = \<lparr>revID = rid_2b, sequence = 0, body = Some [0x79], oldBodyOffset = 0, flags = 0x06,
             parentIndex = 0, deltaRefIndex = 0xFFFF\<rparr>"

definition tree_ab :: RevTree where
  "tree_ab = \<lparr>bodyOffset = 0, sortedFlag = False, changed = True, unknown = False,
              revs = [rev_1a, rev_2b]\<rparr>"


text \<open>A delta algorithm in which the delta is the target itself.\<close>

definition D0 :: delta where
  "D0 = \<lparr>CreateDelta = (\<lambda>reference target. Some target),
         ApplyDelta = (\<lambda>reference d. Some d)\<rparr>"

text \<open>Two revisions, the second compressed against the first.\<close>

definition tree_delta :: RevTree where
  "tree_delta = \<lparr>bodyOffset = 0, sortedFlag = False, changed = True, unknown = False,
                 revs = [rev_1a, rev_2b\<lparr>deltaRefIndex := 0\<rparr>]\<rparr>"


definition tree_cycle :: RevTree where
  "tree_cycle = tree_delta\<lparr>revs := [rev_1a\<lparr>deltaRefIndex := 1\<rparr>, rev_2b\<lparr>deltaRefIndex := 0\<rparr>]\<rparr>"

text \<open>
  Modelled from the spec: the varint codec is ``unsigned LEB128-style'': seven bits a byte,
  the low bits first, the high bit of a byte set when more bytes follow.
\<close>

function leb128_put :: "nat \<Rightarrow> bytes" where
  "leb128_put n =
     (if n < 128 then [of_nat n]
      else of_nat (n mod 128 + 128) # leb128_put (n div 128))"
  by pat_completeness auto
termination
  by (relation "measure id") auto

fun leb128_get :: "bytes \<Rightarrow> nat \<times> nat" where
  "leb128_get [] = (0, 0)"
| "leb128_get (b # bs) =
     (if b < 0x80 then (1, unat b)
      else (case leb128_get bs of
              (k, v) \<Rightarrow> if k = 0 then (0, 0) else (Suc k, unat b - 128 + 128 * v)))"

definition V0 :: varint where
  "V0 = \<lparr>PutUVarInt = (\<lambda>n. leb128_put (unat n)),
         GetUVarInt = (\<lambda>bs. case leb128_get bs of (k, v) \<Rightarrow> (k, of_nat v)),
         SizeOfVarInt = (\<lambda>n. length (leb128_put (unat n)))\<rparr>"

text \<open>One choice of the type codes.\<close>

definition C0 :: typecodes where
  "C0 = \<lparr>kStringCode = 0x0D, kSharedStringCode = 0x0E, kSharedStringRefCode = 0x0F,
         kExternStringRefCode = 0x10\<rparr>"

text \<open>A writer as constructed, with no extern table, and shared strings enabled.\<close>

definition writer0 :: dataWriter where
  "writer0 = \<lparr>out = [], enableSharedStrings = True, externStrings = None,
              maxExternStrings = 0, externStringsLookup = Map.empty,
              sharedStrings = Map.empty,
              states = [\<lparr>s_count = 0, s_i = 0, s_hashes = None, s_indexPos = 0\<rparr>]\<rparr>"

definition hello :: bytes where
  "hello = [0x68, 0x65, 0x6C, 0x6C, 0x6F, 0x21]"

definition world :: bytes where
  "world = [0x77, 0x6F, 0x72, 0x6C, 0x64, 0x2E]"

text \<open>A writer that has written the header of an array of three values.\<close>

definition writer_arr :: dataWriter where
  "writer_arr = writer0\<lparr>out := [0x11, 0x03],
                        states := [\<lparr>s_count = 0, s_i = 1, s_hashes = None, s_indexPos = 0\<rparr>,
                                   \<lparr>s_count = 3, s_i = 0, s_hashes = None, s_indexPos = 0\<rparr>]\<rparr>"

definition outOf :: "error + dataWriter \<Rightarrow> bytes option" where
  "outOf r = (case r of Inl e \<Rightarrow> None | Inr w \<Rightarrow> Some (out w))"

text \<open>The tree of \<open>1-a\<close> and \<open>2-b\<close> after \<open>3-z\<close> was inserted under \<open>2-b\<close>.\<close>

definition tree_abz :: RevTree where
  "tree_abz = tree_ab\<lparr>revs := [rev_1a, rev_2b\<lparr>flags := 0x04\<rparr>,
                                \<lparr>revID = rid_3z, sequence = 0, body = Some [0x7A],
                                 oldBodyOffset = 0, flags = 0x06, parentIndex = 1,
                                 deltaRefIndex = 0xFFFF\<rparr>]\<rparr>"

text \<open>The revision \<open>1-a\<close> without a body and without an old body offset.\<close>

definition rev_1a_nobody :: Revision where
  "rev_1a_nobody = rev_1a\<lparr>body := None\<rparr>"

text \<open>An instance of \<open>std::sort\<close>: insertion sort.\<close>

fun insertBy :: "('a \<Rightarrow> 'a \<Rightarrow> bool) \<Rightarrow> 'a \<Rightarrow> 'a list \<Rightarrow> 'a list" where
  "insertBy cmp x [] = [x]"
| "insertBy cmp x (y # ys) = (if cmp y x then y # insertBy cmp x ys else x # y # ys)"

fun insertionSort :: "('a \<Rightarrow> 'a \<Rightarrow> bool) \<Rightarrow> 'a list \<Rightarrow> 'a list" where
  "insertionSort cmp [] = []"
| "insertionSort cmp (x # xs) = insertBy cmp x (insertionSort cmp xs)"

text \<open>
  Modelled from the spec: \<open>revid::operator<\<close> is declared outside the sources at hand.
  Revision IDs are ``compared first by generation (numeric) then by suffix (byte-wise)''.
\<close>

fun bytes_less :: "bytes \<Rightarrow> bytes \<Rightarrow> bool" where
  "bytes_less [] [] = False"
| "bytes_less [] (y # ys) = True"
| "bytes_less (x # xs) [] = False"
| "bytes_less (x # xs) (y # ys) = (x < y \<or> (x = y \<and> bytes_less xs ys))"

definition revid_suffix :: "bytes \<Rightarrow> bytes" where
  "revid_suffix rid = drop 1 (dropWhile (\<lambda>c. c \<noteq> 0x2D) rid)"

definition revid_less :: "bytes \<Rightarrow> bytes \<Rightarrow> bool" where
  "revid_less a b =
     (generation a < generation b \<or>
      (generation a = generation b \<and> bytes_less (revid_suffix a) (revid_suffix b)))"

text \<open>
  The revisions \<open>1-a\<close>, its deleted child \<open>2-b\<close> and the child \<open>3-c\<close> of that, which is
  the only leaf; and the same tree sorted.
\<close>

definition rid_3c :: bytes where "rid_3c = [0x33, 0x2D, 0x63]"

definition rev_2b_deleted :: Revision where
  "rev_2b_deleted = rev_2b\<lparr>flags := 0x05\<rparr>"

definition rev_3c :: Revision where
  "rev_3c = \<lparr>revID = rid_3c, sequence = 0, body = Some [0x7A], oldBodyOffset = 0, flags = 0x06,
             parentIndex = 1, deltaRefIndex = 0xFFFF\<rparr>"

definition tree_del :: RevTree where
  "tree_del = \<lparr>bodyOffset = 0, sortedFlag = False, changed = True, unknown = False,
               revs = [rev_1a, rev_2b_deleted, rev_3c]\<rparr>"

definition tree_del_sorted :: RevTree where
  "tree_del_sorted = tree_del\<lparr>revs := [rev_3c\<lparr>parentIndex := 2\<rparr>, rev_1a,
                                         rev_2b_deleted\<lparr>parentIndex := 1\<rparr>],
                               sortedFlag := True\<rparr>"






section \<open>Properties\<close>

subsection \<open>Insertion\<close>

lemma findRev_None: "findRev rid rs i = None \<longleftrightarrow> rid \<notin> revID ` set rs"
  by (induction rs arbitrary: i) auto

lemma findRev_Some: "findRev rid rs i = Some j \<Longrightarrow> i \<le> j \<and> j - i < length rs \<and> revID (rs ! (j - i)) = rid"
proof (induction rs arbitrary: i)
  case Nil then show ?case by simp
next
  case (Cons r rs)
  show ?case
  proof (cases "revID r = rid")
    case True with Cons.prems show ?thesis by simp
  next
    case False
    with Cons.prems have "findRev rid rs (Suc i) = Some j" by simp
    from Cons.IH[OF this] show ?thesis by (auto simp: Suc_diff_le nth_Cons')
  qed
qed


lemma get_known: "\<not> unknown t \<Longrightarrow> get t rid = Inr (findRev rid (revs t) 0)"
  by (simp add: get_def split: option.splits)

lemma newRevision_parent [simp]: "parentIndex (newRevision K rid bdy d a) = kNoParent K"
  by (simp add: newRevision_def addFlag_def Let_def)

lemma insert_raw_eq:
  assumes "\<not> unknown t" and "\<forall>p. parent = Some p \<longrightarrow> p < length (revs t)"
  shows "insert_raw K t rid bdy parent deleted att =
           Inr (length (revs t),
                t\<lparr>revs := unleaf K parent (revs t) @ [insertedRev K rid bdy deleted att parent],
                  changed := True, sortedFlag := (sortedFlag t \<and> revs t = [])\<rparr>)"
proof (cases parent)
  case None
  have "(newRevision K rid bdy deleted att)\<lparr>parentIndex := kNoParent K\<rparr> = newRevision K rid bdy deleted att"
    using newRevision_parent[of K rid bdy deleted att] by simp
  then show ?thesis using assms None
    by (cases "revs t") (simp_all add: insert_raw_def unleaf_def insertedRev_def Let_def)
next
  case (Some p)
  then show ?thesis using assms
    by (simp add: insert_raw_def unleaf_def insertedRev_def Let_def)
qed

lemma insert_checked_eq:
  assumes "\<not> unknown t" and "\<forall>p. parent = Some p \<longrightarrow> p < length (revs t)"
  shows "insert_checked K t rid bdy deleted att parent g pg =
          (if g \<noteq> pg + 1 then Inr (None, 400, t)
           else Inr (Some (length (revs t)), if deleted then 200 else 201,
                t\<lparr>revs := unleaf K parent (revs t) @ [insertedRev K rid bdy deleted att parent],
                  changed := True, sortedFlag := (sortedFlag t \<and> revs t = [])\<rparr>))"
  by (simp add: insert_checked_def insert_raw_eq[OF assms])

lemma insert_rev_eq:
  assumes "\<not> unknown t" and "\<forall>p. parent = Some p \<longrightarrow> p < length (revs t)"
  shows "insert_rev K gen t rid bdy deleted att parent allowConflict =
     (if gen rid = 0 then Inr (None, 400, t)
      else if rid \<in> revID ` set (revs t) then Inr (None, 200, t)
      else if \<not> allowConflict \<and>
             (case parent of Some p \<Rightarrow> \<not> isLeaf K (revs t ! p) | None \<Rightarrow> revs t \<noteq> [])
          then Inr (None, 409, t)
      else if gen rid \<noteq> (case parent of Some p \<Rightarrow> gen (revID (revs t ! p)) | None \<Rightarrow> 0) + 1
          then Inr (None, 400, t)
      else Inr (Some (length (revs t)), if deleted then 200 else 201,
                t\<lparr>revs := unleaf K parent (revs t) @ [insertedRev K rid bdy deleted att parent],
                  changed := True, sortedFlag := (sortedFlag t \<and> revs t = [])\<rparr>))"
proof (cases "findRev rid (revs t) 0")
  case (Some i)
  then have "rid \<in> revID ` set (revs t)" using findRev_None[of rid "revs t" 0] by simp
  then show ?thesis using Some assms(1) by (simp add: insert_rev_def get_known Let_def)
next
  case None
  then have nin: "rid \<notin> revID ` set (revs t)" using findRev_None[of rid "revs t" 0] by simp
  show ?thesis
  proof (cases parent)
    case pn: None
    show ?thesis using None nin pn assms(1)
      by (simp add: insert_rev_def get_known Let_def insert_checked_eq[OF assms, unfolded pn] del: One_nat_def)
  next
    case (Some p)
    then have "p < length (revs t)" using assms(2) by simp
    then show ?thesis using None nin Some assms(1)
      by (simp add: insert_rev_def get_known Let_def insert_checked_eq[OF assms, unfolded Some])
  qed
qed


text \<open>
  C4 (as the code has it). On a tree that is not an unknown placeholder, \<open>insert\<close> by
  parent revision ID checks in this order: 404 when a parent ID is supplied and not found;
  400 when the generation of the new ID is 0; 200 and no insertion when the ID is already in
  the tree; 409 when conflicts are not allowed and the parent is not a leaf, or there is no
  parent and the tree is not empty; 400 when the generation is not the parent's plus 1 (0 for
  no parent); otherwise the revision is appended, the parent loses its leaf flag, and the
  status is 200 for a deletion and 201 otherwise.
\<close>

theorem insert_status:
  assumes "\<not> unknown t"
  shows "insert_revid K gen t rid bdy deleted att parentRevID allowConflict =
    (let parent = (case parentRevID of None \<Rightarrow> None | Some prid \<Rightarrow> findRev prid (revs t) 0) in
     if parentRevID \<noteq> None \<and> parent = None then Inr (None, 404, t)
     else if gen rid = 0 then Inr (None, 400, t)
     else if rid \<in> revID ` set (revs t) then Inr (None, 200, t)
     else if \<not> allowConflict \<and>
             (case parent of Some p \<Rightarrow> \<not> isLeaf K (revs t ! p) | None \<Rightarrow> revs t \<noteq> [])
          then Inr (None, 409, t)
     else if gen rid \<noteq> (case parent of Some p \<Rightarrow> gen (revID (revs t ! p)) | None \<Rightarrow> 0) + 1
          then Inr (None, 400, t)
     else Inr (Some (length (revs t)), if deleted then 200 else 201,
               t\<lparr>revs := unleaf K parent (revs t) @ [insertedRev K rid bdy deleted att parent],
                 changed := True,
                 sortedFlag := (sortedFlag t \<and> revs t = [])\<rparr>))"
proof (cases parentRevID)
  case None
  show ?thesis unfolding None insert_revid_def Let_def
    by (simp add: insert_rev_eq[OF assms])
next
  case (Some prid)
  show ?thesis
  proof (cases "findRev prid (revs t) 0")
    case None
    then show ?thesis using assms Some
      by (simp add: insert_revid_def get_known)
  next
    case sp: (Some p)
    from findRev_Some[OF this] have p: "\<forall>q. Some p = Some q \<longrightarrow> q < length (revs t)" by simp
    show ?thesis unfolding Some insert_revid_def Let_def
      by (simp add: get_known[OF assms] sp insert_rev_eq[OF assms p])
  qed
qed


theorem insert_status_witness:
  "\<not> unknown tree_ab \<and>
   insert_revid K0 generation tree_ab rid_2c None False False (Some rid_1a) True =
     Inr (Some 2, 201,
          tree_ab\<lparr>revs := [rev_1a\<lparr>flags := 0x04\<rparr>, rev_2b,
                            \<lparr>revID = rid_2c, sequence = 0, body = None, oldBodyOffset = 0,
                             flags = 0x06, parentIndex = 0, deltaRefIndex = 0xFFFF\<rparr>]\<rparr>)"
  using insert_status [of tree_ab K0 generation rid_2c None False False "Some rid_1a" True]
  by (simp add: generation_def tree_ab_def rev_1a_def rev_2b_def rid_1a_def rid_2b_def rid_2c_def
      isLeaf_def K0_def unleaf_def insertedRev_def newRevision_def clearFlag_def)

text \<open>
  C4 as stated fails: inserting \<open>3-z\<close> under \<open>1-a\<close>, which already has the child
  \<open>2-b\<close>, with conflicts not allowed, has a generation that is not the parent's plus 1,
  and the status is 409, not 400.
\<close>

theorem insert_status_counterexample:
  "\<not> (generation rid_3z = 0 \<or> generation rid_3z \<noteq> generation rid_1a + 1 \<longrightarrow>
      httpStatus (insert_revid K0 generation tree_ab rid_3z None False False (Some rid_1a) False)
        = Some 400)"
  by (simp add: generation_def insert_revid_def insert_rev_def get_def tree_ab_def rev_1a_def rev_2b_def
      rid_1a_def rid_2b_def rid_3z_def isLeaf_def K0_def httpStatus_def)

subsection \<open>Removing and compressing bodies\<close>

lemma expandDependents_none:
  assumes "\<forall>j \<in> set js. j < length (revs t) \<and> unat (deltaRefIndex (revs t ! j)) \<noteq> idx"
  shows "expandDependents fuel K D allowExpansion idx js t = Inr (True, t)"
  using assms by (induction js) auto

text \<open>
  C9 (as the code has it). For a revision with a non-empty body that no revision of the tree
  uses as its delta reference, \<open>removeBody\<close> returns true, clears the body and records the
  tree's \<open>bodyOffset\<close> as \<open>oldBodyOffset\<close> when the tree's \<open>bodyOffset\<close> is positive; when
  it is 0 the assertion of \<open>replaceBody\<close> fails and the call does not return.
\<close>

theorem removeBody_clears:
  assumes "i < length (revs t)"
    and "body (revs t ! i) = Some b" and "b \<noteq> []"
    and "\<forall>j < length (revs t). unat (deltaRefIndex (revs t ! j)) \<noteq> i"
  shows "removeBody fuel K D t i allowExpansion =
           (if bodyOffset t > 0
            then Inr (True, t\<lparr>revs := (revs t)[i := (revs t ! i)\<lparr>oldBodyOffset := bodyOffset t,
                                                                   body := None\<rparr>],
                              changed := True\<rparr>)
            else Inl AssertionFailed)"
proof -
  have "expandDependents fuel K D allowExpansion i [0 ..< length (revs t)] t = Inr (True, t)"
    using assms(4) by (intro expandDependents_none) simp
  then show ?thesis using assms(1,2)
    by (simp add: removeBody_def index_def replaceBody_def)
qed

theorem removeBody_clears_witness:
  "1 < length (revs (tree_ab\<lparr>bodyOffset := 7\<rparr>)) \<and>
   body (revs (tree_ab\<lparr>bodyOffset := 7\<rparr>) ! 1) = Some [0x79] \<and>
   removeBody 0 K0 D0 (tree_ab\<lparr>bodyOffset := 7\<rparr>) 1 False =
     Inr (True, tree_ab\<lparr>bodyOffset := 7,
                        revs := [rev_1a, rev_2b\<lparr>oldBodyOffset := 7, body := None\<rparr>]\<rparr>)"
  using removeBody_clears [of 1 "tree_ab\<lparr>bodyOffset := 7\<rparr>" "[0x79]" 0 K0 D0 False]
  by (simp add: tree_ab_def rev_1a_def rev_2b_def less_Suc_eq K0_def)

text \<open>
  C9 as stated fails: on a tree that was never saved (\<open>bodyOffset\<close> 0), removing the body
  of \<open>2-b\<close> stops at the assertion.
\<close>

theorem removeBody_clears_counterexample:
  "removeBody 0 K0 D0 tree_ab 1 False = Inl AssertionFailed"
  by (simp add: removeBody_def index_def replaceBody_def tree_ab_def rev_1a_def rev_2b_def)

text \<open>
  The loop of \<open>compress\<close> tests \<open>rev == target\<close> only on compressed revisions, and
  \<open>compress\<close> reaches the loop only with a target that is not compressed: the loop never
  refuses.
\<close>

lemma refusesCycle_never:
  "\<not> isCompressed K (revs t ! target) \<Longrightarrow> refusesCycle n K t r target \<noteq> Inr True"
  by (induction n arbitrary: r) (auto split: sum.splits option.splits)

text \<open>
  C2 fails on the code. The first revision is the delta reference of the second, and every
  delta chain ends. Compressing the first against the second returns true and makes each the
  delta reference of the other: the chains no longer end.
\<close>

theorem compress_makes_cycle:
  "\<not> isCompressed K0 (revs tree_delta ! 0) \<and>
   deltaRefIndex (revs tree_delta ! 1) = 0 \<and>
   deltaChainEnds 2 K0 tree_delta 0 \<and> deltaChainEnds 2 K0 tree_delta 1 \<and>
   compress 2 K0 D0 tree_delta 0 1 = Inr (True, tree_cycle) \<and>
   \<not> deltaChainEnds 2 K0 tree_cycle 0 \<and> \<not> deltaChainEnds 2 K0 tree_cycle 1"
  by code_simp

subsection \<open>Shared strings\<close>





lemma addTypeCode_eq:
  "states w \<noteq> [] \<Longrightarrow>
   addTypeCode code w = Inr (w\<lparr>out := out w @ [code], states := bumped w\<rparr>)"
proof -
  assume "states w \<noteq> []"
  then obtain ss s where "states w = ss @ [s]" by (metis rev_exhaust)
  then show ?thesis by (simp add: addTypeCode_def bumped_def Writer_write_def)
qed

lemma bumped_nonempty [simp]: "bumped w \<noteq> []"
  by (simp add: bumped_def)

lemma writePlainString_eq:
  "states w \<noteq> [] \<Longrightarrow>
   writePlainString C V w str =
     Inr (w\<lparr>out := out w @ kStringCode C # PutUVarInt V (of_nat (length str)) @ str,
            states := bumped w\<rparr>)"
  by (simp add: writePlainString_def addTypeCode_eq addUVarint_def Writer_write_def)

lemma writeExternString_eq:
  "states w \<noteq> [] \<Longrightarrow>
   writeExternString C V r w =
     (if 0 < r
      then Inr (w\<lparr>out := out w @ kExternStringRefCode C # PutUVarInt V (ucast r),
                  states := bumped w\<rparr>)
      else Inl AssertionFailed)"
  by (simp add: writeExternString_def addTypeCode_eq addUVarint_def Writer_write_def)

lemma writeStringExtern_None:
  "\<not> externTakes w str c \<Longrightarrow> writeStringExtern C V w str c = None"
  by (auto simp: externTakes_def writeStringExtern_def Let_def split: option.splits)

lemma bumped_upd [simp]:
  "bumped (w\<lparr>sharedStrings := m\<rparr>) = bumped w"
  "bumped (w\<lparr>out := bs\<rparr>) = bumped w"
  "bumped (w\<lparr>externStrings := e, externStringsLookup := l\<rparr>) = bumped w"
  by (simp_all add: bumped_def)

text \<open>A shareable string that the extern table does not take: what \<open>writeString\<close> does.\<close>

lemma writeString_shared_eq:
  assumes "states w \<noteq> []" and "\<not> externTakes w str c"
    and "enableSharedStrings w"
    and "kMinSharedStringLength \<le> length str" and "length str \<le> kMaxSharedStringLength"
    and "length (out w) \<le> UINT32_MAX"
  shows "writeString C V w str c =
    (if sharedStrings w str = None \<or> sharedStrings w str = Some 0
     then Inr (w\<lparr>out := out w @ kStringCode C # PutUVarInt V (of_nat (length str)) @ str,
                 sharedStrings := (sharedStrings w)(str \<mapsto> length (out w)),
                 states := bumped w\<rparr>)
     else if the (sharedStrings w str) < length (out w)
     then Inr (w\<lparr>out := (out w)[the (sharedStrings w str) := kSharedStringCode C]
                          @ kSharedStringRefCode C
                          # PutUVarInt V (of_nat (length (out w) - the (sharedStrings w str))),
                 states := bumped w\<rparr>)
     else Inl AssertionFailed)"
proof (cases "sharedStrings w str")
  case None
  then show ?thesis using assms
    by (simp add: writeString_def writeStringExtern_None writePlainString_eq Let_def)
next
  case (Some p)
  show ?thesis
  proof (cases "p = 0")
    case True
    then show ?thesis using assms Some
      by (simp add: writeString_def writeStringExtern_None writePlainString_eq Let_def)
  next
    case False
    show ?thesis
    proof (cases "p < length (out w)")
      case True
      then have "take p (out w) @ kSharedStringCode C # drop (Suc p) (out w)
                   = (out w)[p := kSharedStringCode C]"
        by (simp add: upd_conv_take_nth_drop)
      then show ?thesis using assms Some False True
        by (simp add: writeString_def writeStringExtern_None Let_def Writer_rewrite_def
            addTypeCode_eq addUVarint_def Writer_write_def)
    next
      case nlt: False
      then show ?thesis using assms Some False
        by (simp add: writeString_def writeStringExtern_None Let_def Writer_rewrite_def)
    qed
  qed
qed

text \<open>What any \<open>writeString\<close> that returns keeps.\<close>

lemma writeString_keeps:
  assumes "writeString C V w s c = Inr w'" and "states w \<noteq> []"
  shows "enableSharedStrings w' = enableSharedStrings w \<and> length (out w) \<le> length (out w')
         \<and> states w' \<noteq> []
         \<and> (sharedStrings w str = Some p \<and> 0 < p \<longrightarrow> sharedStrings w' str = Some p)
         \<and> (str \<noteq> s \<longrightarrow> sharedStrings w' str = sharedStrings w str)"
proof (cases "writeStringExtern C V w s c")
  case (Some r)
  then have r: "r = Inr w'" using assms(1) by (simp add: writeString_def Let_def)
  show ?thesis
  proof (cases "externStrings w")
    case None
    then show ?thesis using Some by (simp add: writeStringExtern_def)
  next
    case tbl: (Some tbl)
    show ?thesis
    proof (cases "externStringsLookup w s")
      case (Some externID)
      then have "writeExternString C V externID w = Inr w'"
        using \<open>writeStringExtern C V w s c = Some r\<close> r tbl by (simp add: writeStringExtern_def)
      then show ?thesis using assms(2)
        by (auto simp: writeExternString_eq split: if_splits)
    next
      case None
      then show ?thesis
        using \<open>writeStringExtern C V w s c = Some r\<close> r tbl assms(2)
        by (auto simp: writeStringExtern_def Let_def writeExternString_eq split: if_splits)
    qed
  qed
next
  case None
  show ?thesis
  proof (cases "enableSharedStrings w \<and> kMinSharedStringLength \<le> length s
                  \<and> length s \<le> kMaxSharedStringLength")
    case False
    then have "writePlainString C V w s = Inr w'"
      using assms(1) None by (auto simp add: writeString_def Let_def)
    then show ?thesis using assms(2) by (auto simp: writePlainString_eq)
  next
    case True
    have le: "length (out w) \<le> UINT32_MAX"
      using assms(1) None True by (auto simp: writeString_def Let_def split: if_splits)
    have nt: "\<not> externTakes w s c"
      using None by (auto simp: externTakes_def writeStringExtern_def Let_def writeExternString_def
          split: option.splits if_splits)
    from True le nt assms show ?thesis
      by (auto simp: writeString_shared_eq split: if_splits)
  qed
qed

lemma writeStrings_keeps:
  assumes "writeStrings C V w ys = Inr w'" and "states w \<noteq> []"
  shows "enableSharedStrings w' = enableSharedStrings w \<and> length (out w) \<le> length (out w')
         \<and> states w' \<noteq> []
         \<and> (sharedStrings w str = Some p \<and> 0 < p \<longrightarrow> sharedStrings w' str = Some p)
         \<and> (str \<notin> fst ` set ys \<longrightarrow> sharedStrings w' str = sharedStrings w str)"
  using assms
proof (induction ys arbitrary: w)
  case Nil
  then show ?case by simp
next
  case (Cons y ys)
  obtain s c where y: "y = (s, c)" by (cases y)
  from Cons.prems y obtain w1 where w1: "writeString C V w s c = Inr w1"
    and rest: "writeStrings C V w1 ys = Inr w'"
    by (auto split: sum.splits)
  note k1 = writeString_keeps[OF w1 Cons.prems(2), of str p]
  from k1 have "states w1 \<noteq> []" by simp
  note k2 = Cons.IH[OF rest this]
  from k1 k2 y show ?case by auto
qed


text \<open>
  C8 (as the code has it). Shared strings are enabled, the string has a length in [4, 100],
  the extern table neither holds nor adds it, and the output stays below \<open>2^32\<close> bytes. When
  its first occurrence has its code byte at an offset greater than 0, that occurrence is
  written in full with \<open>kStringCode\<close>, and after any further strings every later write of it
  sets the code byte of the first occurrence to \<open>kSharedStringCode\<close> and appends
  \<open>kSharedStringRefCode\<close> and the varint of the current offset minus the first offset.
\<close>

theorem shared_string_reference:
  assumes "enableSharedStrings w"
    and "kMinSharedStringLength \<le> length str" and "length str \<le> kMaxSharedStringLength"
    and "states w \<noteq> []"
    and "sharedStrings w str = None"
    and "0 < length (out w)" and "length (out w) \<le> UINT32_MAX"
    and "\<not> externTakes w str c1"
  shows "\<exists>w1. writeString C V w str c1 = Inr w1 \<and>
          out w1 = out w @ kStringCode C # PutUVarInt V (of_nat (length str)) @ str \<and>
          (\<forall>ys w2 c2.
             writeStrings C V w1 ys = Inr w2 \<and> \<not> externTakes w2 str c2
               \<and> length (out w2) \<le> UINT32_MAX \<longrightarrow>
             (\<exists>w3. writeString C V w2 str c2 = Inr w3 \<and>
                out w3 = (out w2)[length (out w) := kSharedStringCode C]
                           @ kSharedStringRefCode C
                           # PutUVarInt V (of_nat (length (out w2) - length (out w)))))"
proof -
  let ?p = "length (out w)"
  let ?w1 = "w\<lparr>out := out w @ kStringCode C # PutUVarInt V (of_nat (length str)) @ str,
               sharedStrings := (sharedStrings w)(str \<mapsto> ?p), states := bumped w\<rparr>"
  have first: "writeString C V w str c1 = Inr ?w1"
    using assms by (simp add: writeString_shared_eq)
  have later: "\<exists>w3. writeString C V w2 str c2 = Inr w3 \<and>
                out w3 = (out w2)[?p := kSharedStringCode C] @ kSharedStringRefCode C
                           # PutUVarInt V (of_nat (length (out w2) - ?p))"
    if run: "writeStrings C V ?w1 ys = Inr w2" and nt: "\<not> externTakes w2 str c2"
      and le: "length (out w2) \<le> UINT32_MAX" for ys w2 c2
  proof -
    have "states ?w1 \<noteq> []" by simp
    from writeStrings_keeps[OF run this, of str ?p] assms(1,6)
    have en: "enableSharedStrings w2" and st: "states w2 \<noteq> []"
      and sh: "sharedStrings w2 str = Some ?p" and len: "?p < length (out w2)"
      by auto
    show ?thesis
      using assms(2,3,6) len sh
      by (simp add: writeString_shared_eq[OF st nt en assms(2,3) le])
  qed
  show ?thesis using first later by auto
qed

text \<open>
  C10 (as the code has it). Shared strings are enabled, the string has a length in [4, 100],
  the extern table neither holds nor adds it, and the output stays below \<open>2^32\<close> bytes. When
  the first occurrence of the string has its code byte at offset 0, the map records the
  offset 0 for it; after any other strings, its second occurrence is written again in full
  with \<open>kStringCode\<close>, and the offset that the map then records for the string is that of
  the second occurrence, which is greater than 0. After any further strings, every later
  write of the string sets the code byte of the second occurrence to \<open>kSharedStringCode\<close>
  and appends \<open>kSharedStringRefCode\<close> and the varint of the current offset minus the offset
  of the second occurrence.
\<close>

theorem shared_string_at_offset_0:
  assumes "enableSharedStrings w"
    and "kMinSharedStringLength \<le> length str" and "length str \<le> kMaxSharedStringLength"
    and "states w \<noteq> []"
    and "sharedStrings w str = None"
    and "out w = []"
    and "\<not> externTakes w str c1"
  shows "\<exists>w1. writeString C V w str c1 = Inr w1 \<and>
          out w1 = kStringCode C # PutUVarInt V (of_nat (length str)) @ str \<and>
          sharedStrings w1 str = Some 0 \<and>
          (\<forall>ys w2 c2.
             writeStrings C V w1 ys = Inr w2 \<and> str \<notin> fst ` set ys
               \<and> \<not> externTakes w2 str c2 \<and> length (out w2) \<le> UINT32_MAX \<longrightarrow>
             (\<exists>w3. writeString C V w2 str c2 = Inr w3 \<and>
                out w3 = out w2 @ kStringCode C # PutUVarInt V (of_nat (length str)) @ str \<and>
                sharedStrings w3 str = Some (length (out w2)) \<and> 0 < length (out w2) \<and>
                (\<forall>zs w4 c3.
                   writeStrings C V w3 zs = Inr w4 \<and> \<not> externTakes w4 str c3
                     \<and> length (out w4) \<le> UINT32_MAX \<longrightarrow>
                   (\<exists>w5. writeString C V w4 str c3 = Inr w5 \<and>
                      out w5 = (out w4)[length (out w2) := kSharedStringCode C]
                                 @ kSharedStringRefCode C
                                 # PutUVarInt V (of_nat (length (out w4) - length (out w2)))))))"
proof -
  let ?w1 = "w\<lparr>out := out w @ kStringCode C # PutUVarInt V (of_nat (length str)) @ str,
               sharedStrings := (sharedStrings w)(str \<mapsto> length (out w)),
               states := bumped w\<rparr>"
  have first: "writeString C V w str c1 = Inr ?w1"
    using assms by (simp add: writeString_shared_eq UINT32_MAX_def)
  have again: "\<exists>w3. writeString C V w2 str c2 = Inr w3 \<and>
                out w3 = out w2 @ kStringCode C # PutUVarInt V (of_nat (length str)) @ str \<and>
                sharedStrings w3 str = Some (length (out w2)) \<and> 0 < length (out w2) \<and>
                (\<forall>zs w4 c3.
                   writeStrings C V w3 zs = Inr w4 \<and> \<not> externTakes w4 str c3
                     \<and> length (out w4) \<le> UINT32_MAX \<longrightarrow>
                   (\<exists>w5. writeString C V w4 str c3 = Inr w5 \<and>
                      out w5 = (out w4)[length (out w2) := kSharedStringCode C]
                                 @ kSharedStringRefCode C
                                 # PutUVarInt V (of_nat (length (out w4) - length (out w2)))))"
    if run: "writeStrings C V ?w1 ys = Inr w2" and other: "str \<notin> fst ` set ys"
      and nt: "\<not> externTakes w2 str c2" and le: "length (out w2) \<le> UINT32_MAX" for ys w2 c2
  proof -
    let ?q = "length (out w2)"
    let ?w3 = "w2\<lparr>out := out w2 @ kStringCode C # PutUVarInt V (of_nat (length str)) @ str,
                 sharedStrings := (sharedStrings w2)(str \<mapsto> ?q),
                 states := bumped w2\<rparr>"
    have "states ?w1 \<noteq> []" by simp
    from writeStrings_keeps[OF run this, of str 0] assms(1,6) other
    have en: "enableSharedStrings w2" and st: "states w2 \<noteq> []"
      and sh: "sharedStrings w2 str = Some 0" and len: "0 < ?q"
      by auto
    have second: "writeString C V w2 str c2 = Inr ?w3"
      using len sh by (simp add: writeString_shared_eq[OF st nt en assms(2,3) le])
    have later: "\<exists>w5. writeString C V w4 str c3 = Inr w5 \<and>
                   out w5 = (out w4)[?q := kSharedStringCode C] @ kSharedStringRefCode C
                              # PutUVarInt V (of_nat (length (out w4) - ?q))"
      if run3: "writeStrings C V ?w3 zs = Inr w4" and nt4: "\<not> externTakes w4 str c3"
        and le4: "length (out w4) \<le> UINT32_MAX" for zs w4 c3
    proof -
      have "states ?w3 \<noteq> []" by simp
      from writeStrings_keeps[OF run3 this, of str ?q] en len
      have en4: "enableSharedStrings w4" and st4: "states w4 \<noteq> []"
        and sh4: "sharedStrings w4 str = Some ?q" and len4: "?q < length (out w4)"
        by auto
      show ?thesis
        using len len4 sh4
        by (simp add: writeString_shared_eq[OF st4 nt4 en4 assms(2,3) le4])
    qed
    show ?thesis using second len later by auto
  qed
  show ?thesis using first again assms(6) by auto
qed


lemma leb6: "leb128_put 6 = [6]" "leb128_put 8 = [8]" "leb128_put 16 = [16]"
  by (subst leb128_put.simps, simp)+

lemmas writer_eval = writeString_def writeStringExtern_def writePlainString_def addTypeCode_def
  addUVarint_def Writer_write_def Writer_rewrite_def kMinSharedStringLength_def
  kMaxSharedStringLength_def UINT32_MAX_def externTakes_def outOf_def
  writer0_def writer_arr_def hello_def world_def C0_def V0_def leb6

theorem shared_string_reference_witness:
  "enableSharedStrings writer_arr \<and> kMinSharedStringLength \<le> length hello \<and>
   length hello \<le> kMaxSharedStringLength \<and> states writer_arr \<noteq> [] \<and>
   sharedStrings writer_arr hello = None \<and> 0 < length (out writer_arr) \<and>
   length (out writer_arr) \<le> UINT32_MAX \<and> \<not> externTakes writer_arr hello False \<and>
   outOf (writeStrings C0 V0 writer_arr [(hello, False), (world, False), (hello, False)]) =
     Some ([0x11, 0x03] @ [0x0E, 6] @ hello @ [0x0D, 6] @ world @ [0x0F, 16])"
  using shared_string_reference [of writer_arr hello False C0 V0]
  by (simp add: writer_eval del: leb128_put.simps)

text \<open>
  C8 as stated fails: when \<open>hello!\<close> is the first value of the stream and is written a
  second time, it is written in full again; the first code byte is not rewritten and no
  reference is emitted.
\<close>

theorem shared_string_reference_counterexample:
  "outOf (writeStrings C0 V0 writer0 [(hello, False), (hello, False)]) =
     Some ([0x0D, 6] @ hello @ [0x0D, 6] @ hello) \<and>
   outOf (writeStrings C0 V0 writer0 [(hello, False), (hello, False)]) \<noteq>
     Some ([0x0E, 6] @ hello @ [0x0F, 8])"
  by (simp add: writer_eval del: leb128_put.simps)

theorem shared_string_at_offset_0_witness:
  "enableSharedStrings writer0 \<and> kMinSharedStringLength \<le> length hello \<and>
   length hello \<le> kMaxSharedStringLength \<and> states writer0 \<noteq> [] \<and>
   sharedStrings writer0 hello = None \<and> out writer0 = [] \<and>
   \<not> externTakes writer0 hello False \<and>
   outOf (writeStrings C0 V0 writer0 [(hello, False), (world, False), (hello, False), (hello, False)]) =
     Some ([0x0D, 6] @ hello @ [0x0D, 6] @ world @ [0x0E, 6] @ hello @ [0x0F, 8])"
  using shared_string_at_offset_0 [of writer0 hello False C0 V0]
  by (simp add: writer_eval del: leb128_put.simps)

text \<open>
  C10 as stated fails: the second occurrence is recorded at its own offset 8, and the third
  occurrence is emitted as a reference to it, at distance 8.
\<close>

theorem shared_string_at_offset_0_counterexample:
  "outOf (writeStrings C0 V0 writer0 [(hello, False), (hello, False), (hello, False)]) =
     Some ([0x0D, 6] @ hello @ [0x0E, 6] @ hello @ [0x0F, 8]) \<and>
   outOf (writeStrings C0 V0 writer0 [(hello, False), (hello, False), (hello, False)]) \<noteq>
     Some ([0x0D, 6] @ hello @ [0x0D, 6] @ hello @ [0x0D, 6] @ hello)"
  by (simp add: writer_eval del: leb128_put.simps)

subsection \<open>Inserting a history\<close>

lemma findAncestor_eq:
  assumes "\<not> unknown t"
  shows "findAncestor gen t hs idx lastGen =
    (let k = length (takeWhile (\<lambda>h. h \<notin> revID ` set (revs t)) hs) in
     if \<not> preflight gen lastGen (take (Suc k) hs) then Inr None
     else Inr (Some (idx + k, if k < length hs then findRev (hs ! k) (revs t) 0 else None)))"
proof (induction hs arbitrary: idx lastGen)
  case Nil
  show ?case by simp
next
  case (Cons h hs)
  show ?case
  proof (cases "findRev h (revs t) 0")
    case None
    then have "h \<notin> revID ` set (revs t)" by (simp add: findRev_None)
    then show ?thesis using None assms Cons.IH[of "Suc idx" "gen h"]
      by (simp add: get_known Let_def)
  next
    case (Some p)
    then have "h \<in> revID ` set (revs t)" using findRev_None[of h "revs t" 0] by auto
    then show ?thesis using Some assms
      by (simp add: get_known Let_def)
  qed
qed


lemma length_historyChain [simp]: "length (historyChain K n parent ids dat d a) = length ids"
  by (induction K n parent ids dat d a rule: historyChain.induct) simp_all

lemma historyChain_snoc:
  "ids \<noteq> [] \<Longrightarrow>
   historyChain K n parent (ids @ [h]) dat d a =
     (historyChain K n parent ids None False False)
        [length ids - 1 := clearFlag (kLeaf K)
                             (historyChain K n parent ids None False False ! (length ids - 1))]
     @ [insertedRev K h dat d a (Some (n + length ids - 1))]"
proof (induction K n parent ids "None :: slice" False False rule: historyChain.induct)
  case (1 K n parent)
  then show ?case by simp
next
  case (2 K n parent x)
  show ?case by simp
next
  case (3 K n parent x y zs)
  then show ?case by simp
qed

lemma insert_chain:
  assumes nu: "\<not> unknown t0" and pv: "\<forall>p. parent = Some p \<longrightarrow> p < length (revs t0)"
    and k0: "0 < k" and kl: "k \<le> length hist"
  shows "(case insertAncestors K hist k parent t0 of
            Inl e \<Rightarrow> Inl e
          | Inr (parent', t') \<Rightarrow>
              (case insert_raw K t' (hist ! 0) dat parent' d a of
                 Inl e \<Rightarrow> Inl e
               | Inr (p, t'') \<Rightarrow> Inr (int k, t'')))
         = Inr (int k,
                t0\<lparr>revs := unleaf K parent (revs t0)
                             @ historyChain K (length (revs t0)) parent (rev (take k hist)) dat d a,
                   changed := True,
                   sortedFlag := (sortedFlag t0 \<and> revs t0 = [] \<and> k = 1)\<rparr>)"
proof -
  define n0 where "n0 = length (revs t0)"
  define base where "base = unleaf K parent (revs t0)"
  define ids where "ids m = rev (drop (k - m) (take k hist))" for m
  define T where "T m = (if m = 0 then t0 else
       t0\<lparr>revs := base @ historyChain K n0 parent (ids m) None False False,
          changed := True, sortedFlag := (sortedFlag t0 \<and> revs t0 = [] \<and> m = 1)\<rparr>)" for m
  define P where "P m = (if m = 0 then parent else Some (n0 + m - 1))" for m
  have lb: "length base = n0"
    by (simp add: base_def n0_def unleaf_def split: option.splits)
  have len_ids: "length (ids m) = m" if "m \<le> k" for m
    using that kl by (simp add: ids_def)
  have ids_Suc: "ids (Suc m) = ids m @ [hist ! (k - Suc m)]" if "m < k" for m
  proof -
    have "k - Suc m < length (take k hist)" using that kl by simp
    from Cons_nth_drop_Suc[OF this] that
    have "drop (k - Suc m) (take k hist) = hist ! (k - Suc m) # drop (k - m) (take k hist)"
      by (simp add: Suc_diff_Suc)
    then show ?thesis by (simp add: ids_def)
  qed
  have nuT: "\<not> unknown (T m)" for m using nu by (simp add: T_def)
  have step: "insert_raw K (T m) (hist ! (k - Suc m)) dat' (P m) d' a' =
                Inr (n0 + m,
                     t0\<lparr>revs := base @ historyChain K n0 parent (ids (Suc m)) dat' d' a',
                        changed := True,
                        sortedFlag := (sortedFlag t0 \<and> revs t0 = [] \<and> m = 0)\<rparr>)"
    if m: "m < k" for m dat' d' a'
  proof (cases "m = 0")
    case True
    have "ids (Suc 0) = [hist ! (k - Suc 0)]" using ids_Suc[of 0] k0 by (simp add: ids_def)
    then show ?thesis using True insert_raw_eq[OF nu pv, of K "hist ! (k - Suc 0)" dat' d' a']
      by (simp add: T_def P_def base_def n0_def)
  next
    case False
    then obtain m' where m': "m = Suc m'" by (cases m) auto
    let ?m = "Suc m'"
    let ?c = "historyChain K n0 parent (ids ?m) None False False"
    let ?h = "hist ! (k - Suc ?m)"
    have mk: "?m < k" using m m' by simp
    have li: "length (ids ?m) = ?m" using len_ids[of ?m] mk by simp
    have ne: "ids ?m \<noteq> []" using li by auto
    have revsT: "revs (T ?m) = base @ ?c" by (simp add: T_def)
    have pm: "P ?m = Some (n0 + m')" by (simp add: P_def)
    have valid: "\<forall>p. P ?m = Some p \<longrightarrow> p < length (revs (T ?m))"
      by (simp add: pm revsT lb li)
    have upd: "unleaf K (P ?m) (revs (T ?m)) =
                 base @ ?c[m' := clearFlag (kLeaf K) (?c ! m')]"
      by (simp add: unleaf_def pm revsT list_update_append nth_append lb li)
    have hc: "historyChain K n0 parent (ids (Suc ?m)) dat' d' a' =
            ?c[m' := clearFlag (kLeaf K) (?c ! m')]
              @ [insertedRev K ?h dat' d' a' (P ?m)]"
      using historyChain_snoc[OF ne, of K n0 parent ?h dat' d' a']
            ids_Suc[OF mk] li
      by (simp add: pm)
    have e1: "length (revs (T ?m)) = n0 + ?m" by (simp add: revsT lb li)
    have e2: "unleaf K (P ?m) (revs (T ?m)) @ [insertedRev K ?h dat' d' a' (P ?m)]
                = base @ historyChain K n0 parent (ids (Suc ?m)) dat' d' a'"
      unfolding upd hc by simp
    have e3: "(sortedFlag (T ?m) \<and> revs (T ?m) = []) = (sortedFlag t0 \<and> revs t0 = [] \<and> ?m = 0)"
    proof -
      have "length ?c \<noteq> 0" using li by simp
      then have "?c \<noteq> []" by (simp del: length_historyChain)
      then show ?thesis by (simp add: revsT)
    qed
    have e4: "(T ?m)\<lparr>revs := X, changed := True, sortedFlag := Y\<rparr>
                = t0\<lparr>revs := X, changed := True, sortedFlag := Y\<rparr>" for X Y
      by (simp add: T_def)
    show ?thesis
      unfolding m' insert_raw_eq[OF nuT valid] e1 e2 e3 e4 ..
  qed
  have loop: "insertAncestors K hist (Suc j) (P (k - Suc j)) (T (k - Suc j))
                = Inr (P (k - 1), T (k - 1))" if "j < k" for j
    using that
  proof (induction j)
    case 0
    show ?case by simp
  next
    case (Suc j)
    then have m: "k - Suc (Suc j) < k" and s: "Suc (k - Suc (Suc j)) = k - Suc j" by auto
    have kj: "k - Suc (k - Suc (Suc j)) = Suc j" using Suc.prems by auto
    have ar: "(k - Suc j = Suc 0) = (k - Suc (Suc j) = 0)" using Suc.prems by auto
    have "T (k - Suc j) =
            t0\<lparr>revs := base @ historyChain K n0 parent (ids (k - Suc j)) None False False,
               changed := True,
               sortedFlag := (sortedFlag t0 \<and> revs t0 = [] \<and> k - Suc (Suc j) = 0)\<rparr>"
      using Suc.prems ar by (simp add: T_def)
    moreover have "P (k - Suc j) = Some (n0 + (k - Suc (Suc j)))"
      using Suc.prems by (auto simp: P_def)
    ultimately show ?case
      using step[OF m, of None False False] Suc.IH Suc.prems
      by (simp add: s kj)
  qed
  have "k - 1 < k" using k0 by simp
  from step[OF this, of dat d a] k0
  have last: "insert_raw K (T (k - 1)) (hist ! 0) dat (P (k - 1)) d a =
          Inr (n0 + (k - 1),
               t0\<lparr>revs := base @ historyChain K n0 parent (ids k) dat d a,
                  changed := True,
                  sortedFlag := (sortedFlag t0 \<and> revs t0 = [] \<and> k = 1)\<rparr>)"
    by (simp add: Suc_diff_Suc) (metis One_nat_def Suc_pred diff_is_0_eq' k0 le_eq_less_or_eq not_less_eq_eq)
  have "insertAncestors K hist k parent t0 = Inr (P (k - 1), T (k - 1))"
    using loop[of "k - 1"] k0 by (simp add: P_def T_def)
  then show ?thesis using last
    by (simp add: ids_def base_def n0_def)
qed


lemma historyChain_revID_body:
  "ids \<noteq> [] \<Longrightarrow>
   map revID (historyChain K n parent ids dat d a) = ids \<and>
   map body (historyChain K n parent ids dat d a) = replicate (length ids - 1) None @ [dat]"
  by (induction K n parent ids dat d a rule: historyChain.induct)
     (simp_all add: insertedRev_def newRevision_def addFlag_def clearFlag_def Let_def)

text \<open>
  C7 (as the code has it). For a non-empty history on a tree that is not an unknown
  placeholder, let \<open>k\<close> be the position of the first entry present in the tree, or the
  length of the history when none is. \<open>insertHistory\<close> returns -1 and inserts nothing when
  the generations of the entries up to and including position \<open>k\<close> fail the test of the
  loop; otherwise it returns \<open>k\<close>, having inserted nothing when \<open>k\<close> is 0 and otherwise the
  entries before \<open>k\<close>, oldest first, each the child of the one before it and the oldest the
  child of entry \<open>k\<close> (or without parent), with null bodies but for \<open>history[0]\<close>, which
  has the given body and flags.
\<close>

theorem insertHistory_result:
  assumes "history \<noteq> []" and "\<not> unknown t"
  shows "insertHistory K gen t history dat deleted att =
    (let k = length (takeWhile (\<lambda>h. h \<notin> revID ` set (revs t)) history);
         parent = (if k < length history then findRev (history ! k) (revs t) 0 else None) in
     if \<not> preflight gen 0 (take (Suc k) history) then Inr (-1, t)
     else if k = 0 then Inr (0, t)
     else Inr (int k,
               t\<lparr>revs := unleaf K parent (revs t)
                           @ historyChain K (length (revs t)) parent (rev (take k history))
                               dat deleted att,
                 changed := True,
                 sortedFlag := (sortedFlag t \<and> revs t = [] \<and> k = 1)\<rparr>))
    \<and> (\<forall>n parent ids. ids \<noteq> [] \<longrightarrow>
          map revID (historyChain K n parent ids dat deleted att) = ids \<and>
          map body (historyChain K n parent ids dat deleted att)
            = replicate (length ids - 1) None @ [dat])"
proof -
  define k where "k = length (takeWhile (\<lambda>h. h \<notin> revID ` set (revs t)) history)"
  define parent where
    "parent = (if k < length history then findRev (history ! k) (revs t) 0 else None)"
  have kl: "k \<le> length history" by (simp add: k_def length_takeWhile_le)
  have pv: "\<forall>p. parent = Some p \<longrightarrow> p < length (revs t)"
    using findRev_Some[of _ "revs t" 0] by (auto simp: parent_def split: if_splits)
  have fa: "findAncestor gen t history 0 0 =
              (if \<not> preflight gen 0 (take (Suc k) history) then Inr None
               else Inr (Some (k, parent)))"
    using findAncestor_eq[OF assms(2), of gen history 0 0]
    by (simp add: Let_def k_def parent_def)
  have main: "insertHistory K gen t history dat deleted att =
     (if \<not> preflight gen 0 (take (Suc k) history) then Inr (-1, t)
      else if k = 0 then Inr (0, t)
      else Inr (int k,
               t\<lparr>revs := unleaf K parent (revs t)
                           @ historyChain K (length (revs t)) parent (rev (take k history))
                               dat deleted att,
                 changed := True,
                 sortedFlag := (sortedFlag t \<and> revs t = [] \<and> k = 1)\<rparr>))"
  proof (cases "preflight gen 0 (take (Suc k) history)")
    case False
    then show ?thesis using assms(1) fa by (simp add: insertHistory_def)
  next
    case True
    show ?thesis
    proof (cases "k = 0")
      case k0: True
      then show ?thesis using assms(1) fa True by (simp add: insertHistory_def)
    next
      case False
      then have "0 < k" by simp
      from insert_chain[OF assms(2) pv this kl, of K dat deleted att]
      show ?thesis using assms(1) fa True False by (simp add: insertHistory_def)
    qed
  qed
  show ?thesis
    using main historyChain_revID_body[of _ K _ _ dat deleted att]
    by (simp add: Let_def k_def parent_def)
qed

theorem insertHistory_result_witness:
  "[rid_3z, rid_2b, rid_1a] \<noteq> [] \<and> \<not> unknown tree_ab \<and>
   insertHistory K0 generation tree_ab [rid_3z, rid_2b, rid_1a] (Some [0x7A]) False False
     = Inr (1, tree_abz)"
  using insertHistory_result [of "[rid_3z, rid_2b, rid_1a]" tree_ab K0 generation "Some [0x7A]" False False]
  by (simp add: tree_ab_def tree_abz_def rev_1a_def rev_2b_def rid_1a_def rid_2b_def rid_3z_def
      generation_def K0_def unleaf_def insertedRev_def newRevision_def clearFlag_def addFlag_def
      Let_def)

text \<open>
  C7 as stated fails: the entries \<open>2-b\<close> and \<open>2-c\<close> of the history do not decrease in
  generation, but \<open>2-b\<close> is in the tree, the loop stops there, and \<open>3-z\<close> is inserted.
\<close>

theorem insertHistory_result_counterexample:
  "generation rid_2c \<noteq> generation rid_2b - 1 \<and>
   insertHistory K0 generation tree_ab [rid_3z, rid_2b, rid_2c] (Some [0x7A]) False False
     = Inr (1, tree_abz)"
  by (simp add: insertHistory_def get_def insert_raw_def newRevision_def clearFlag_def
      tree_ab_def tree_abz_def rev_1a_def rev_2b_def rid_1a_def rid_2b_def rid_2c_def rid_3z_def
      generation_def K0_def Let_def)

subsection \<open>Writing a revision\<close>

lemma length_be [simp]: "length (be32 x) = 4" "length (be16 y) = 2"
  by (simp_all add: be32_def be16_def)

text \<open>
  C3 (as the code has it). No persistent flag being one of the two private bits: a revision
  with a non-empty body is written with \<open>HasData\<close> and its body; otherwise one with a
  positive \<open>oldBodyOffset\<close> is written with \<open>HasBodyOffset\<close> and the varint of
  \<open>oldBodyOffset\<close>; otherwise neither flag is set and nothing follows the sequence number,
  whatever the tree's \<open>bodyOffset\<close>.
\<close>

theorem write_body_or_offset:
  assumes "kPublicPersistentFlags K AND (kHasData OR kHasBodyOffset) = 0"
  shows "rawFlags (Revision_write V K r bodyOffs) AND (kHasData OR kHasBodyOffset) =
           (if slice_size (body r) > 0 then kHasData
            else if oldBodyOffset r > 0 then kHasBodyOffset else 0)
       \<and> rawData V r (Revision_write V K r bodyOffs) =
           (if slice_size (body r) > 0 then slice_bytes (body r)
            else if oldBodyOffset r > 0 then PutUVarInt V (oldBodyOffset r) else [])"
proof -
  let ?p = "flags r AND kPublicPersistentFlags K"
  have p: "?p AND 0xC0 = 0"
  proof -
    have "?p AND 0xC0 = flags r AND (kPublicPersistentFlags K AND 0xC0)"
      by (simp add: and.assoc)
    then show ?thesis using assms by (simp add: kHasData_def kHasBodyOffset_def)
  qed
  have p80: "?p AND 0x80 = 0"
  proof -
    have "?p AND 0x80 = (?p AND 0xC0) AND 0x80" by (simp add: and.assoc)
    then show ?thesis using p by simp
  qed
  have p40: "?p AND 0x40 = 0"
  proof -
    have "?p AND 0x40 = (?p AND 0xC0) AND 0x40" by (simp add: and.assoc)
    then show ?thesis using p by simp
  qed
  have nth8: "(be32 a @ be16 b @ be16 c @ [f, l] @ rest) ! 8 = f" for a b c f l rest
    by (simp add: be32_def be16_def)
  have drp: "drop (offsetof_revID + length rid + length sq)
               (be32 a @ be16 b @ be16 c @ [f, l] @ rid @ sq @ d) = d" for a b c f l rid sq d
    by (simp add: offsetof_revID_def)
  show ?thesis
    unfolding rawFlags_def rawData_def Revision_write_def Let_def nth8 drp
    using p p80 p40
    by (simp add: kHasData_def kHasBodyOffset_def bit.conj_disj_distrib2 word_gt_0)
qed


lemma leb_small: "leb128_put 0 = [0]" "leb128_put 5 = [5]" "leb128_put 7 = [7]"
  by (subst leb128_put.simps, simp)+

theorem write_body_or_offset_witness:
  "kPublicPersistentFlags K0 AND (kHasData OR kHasBodyOffset) = 0 \<and>
   rawFlags (Revision_write V0 K0 (rev_1a_nobody\<lparr>oldBodyOffset := 5\<rparr>) 7)
      AND (kHasData OR kHasBodyOffset) = kHasBodyOffset \<and>
   rawData V0 (rev_1a_nobody\<lparr>oldBodyOffset := 5\<rparr>)
      (Revision_write V0 K0 (rev_1a_nobody\<lparr>oldBodyOffset := 5\<rparr>) 7) = [5]"
  using write_body_or_offset [of K0 V0 "rev_1a_nobody\<lparr>oldBodyOffset := 5\<rparr>" 7]
  by (simp add: kPublicPersistentFlags_def K0_def kHasData_def kHasBodyOffset_def
      rev_1a_nobody_def rev_1a_def slice_size_def V0_def leb_small del: leb128_put.simps)

text \<open>
  C3 as stated fails: a revision with no body and no old body offset, in a tree loaded from
  offset 7, is written without \<open>HasBodyOffset\<close> and without an offset.
\<close>

theorem write_body_or_offset_counterexample:
  "slice_size (body rev_1a_nobody) = 0 \<and> oldBodyOffset rev_1a_nobody = 0 \<and>
   rawFlags (Revision_write V0 K0 rev_1a_nobody 7) AND kHasBodyOffset = 0 \<and>
   rawData V0 rev_1a_nobody (Revision_write V0 K0 rev_1a_nobody 7) = [] \<and>
   PutUVarInt V0 7 = [7]"
  by (simp add: Revision_write_def sizeToWrite_def rawFlags_def rawData_def be32_def be16_def
      kPublicPersistentFlags_def K0_def kHasData_def kHasBodyOffset_def offsetof_revID_def
      rev_1a_nobody_def rev_1a_def rid_1a_def slice_size_def V0_def leb_small
      del: leb128_put.simps)

subsection \<open>Sorting\<close>

lemma length_setCookies [simp]: "length (setCookies k rs) = length rs"
  by (induction rs arbitrary: k) simp_all

lemma nth_setCookies:
  "j < length rs \<Longrightarrow> setCookies k rs ! j = (rs ! j)\<lparr>parentIndex := of_nat (k + j)\<rparr>"
proof (induction rs arbitrary: k j)
  case Nil
  then show ?case by simp
next
  case (Cons r rs)
  show ?case
  proof (cases j)
    case 0
    then show ?thesis by simp
  next
    case (Suc j')
    then show ?thesis using Cons.IH[of j' "Suc k"] Cons.prems by simp
  qed
qed

lemma unat_of_nat16: "k < 65536 \<Longrightarrow> unat (of_nat k :: 16 word) = k"
  by (simp add: unat_of_nat take_bit_nat_eq_self)


lemma buildOldToNew_ok:
  assumes "\<forall>r\<in>set rs. unat (parentIndex r) < length m" and "distinct (map parentIndex rs)"
  shows "\<exists>m'. buildOldToNew rs k m = Inr m' \<and> length m' = length m \<and>
           (\<forall>j<length rs. m' ! unat (parentIndex (rs ! j)) = Some (of_nat (k + j))) \<and>
           (\<forall>q<length m. (\<forall>r\<in>set rs. unat (parentIndex r) \<noteq> q) \<longrightarrow> m' ! q = m ! q)"
  using assms
proof (induction rs arbitrary: k m)
  case Nil
  then show ?case by simp
next
  case (Cons r rs)
  let ?o = "unat (parentIndex r)"
  let ?m1 = "m[?o := Some (of_nat k)]"
  have o: "?o < length m" using Cons.prems(1) by simp
  have pre1: "\<forall>r\<in>set rs. unat (parentIndex r) < length ?m1" using Cons.prems(1) by simp
  have pre2: "distinct (map parentIndex rs)" using Cons.prems(2) by simp
  from Cons.IH[OF pre1 pre2, of "Suc k"] obtain m' where
    m': "buildOldToNew rs (Suc k) ?m1 = Inr m'" "length m' = length ?m1"
        "\<forall>j<length rs. m' ! unat (parentIndex (rs ! j)) = Some (of_nat (Suc k + j))"
        "\<forall>q<length ?m1. (\<forall>r\<in>set rs. unat (parentIndex r) \<noteq> q) \<longrightarrow> m' ! q = ?m1 ! q"
    by blast
  have notin: "\<forall>r'\<in>set rs. unat (parentIndex r') \<noteq> ?o"
  proof
    fix r' assume "r' \<in> set rs"
    moreover have "parentIndex r \<notin> parentIndex ` set rs" using Cons.prems(2) by simp
    ultimately have "parentIndex r' \<noteq> parentIndex r" by (metis image_eqI)
    then show "unat (parentIndex r') \<noteq> ?o" by (simp add: word_unat_eq_iff)
  qed
  have first: "m' ! ?o = Some (of_nat k)" using m'(4) o notin by simp
  have nth: "\<forall>j<length (r # rs). m' ! unat (parentIndex ((r # rs) ! j)) = Some (of_nat (k + j))"
  proof (intro allI impI)
    fix j assume "j < length (r # rs)"
    then show "m' ! unat (parentIndex ((r # rs) ! j)) = Some (of_nat (k + j))"
      using first m'(3) by (cases j) auto
  qed
  have keep: "\<forall>q<length m. (\<forall>r'\<in>set (r # rs). unat (parentIndex r') \<noteq> q) \<longrightarrow> m' ! q = m ! q"
    using m'(4) by auto
  show ?case using o m'(1,2) nth keep by (simp add: Let_def)
qed

lemma fixIndexes_ok:
  assumes "\<forall>r\<in>set rs. unat (parentIndex r) < length oP \<and>
             (oP ! unat (parentIndex r) \<noteq> kNoParent K \<longrightarrow>
                unat (oP ! unat (parentIndex r)) < length oTN \<and>
                oTN ! unat (oP ! unat (parentIndex r)) \<noteq> None) \<and>
             (deltaRefIndex r \<noteq> kNoParent K \<longrightarrow>
                unat (deltaRefIndex r) < length oTN \<and> oTN ! unat (deltaRefIndex r) \<noteq> None)"
  shows "fixIndexes K oP oTN rs =
           Inr (map (\<lambda>r. r\<lparr>parentIndex :=
                                (if oP ! unat (parentIndex r) \<noteq> kNoParent K
                                 then the (oTN ! unat (oP ! unat (parentIndex r)))
                                 else oP ! unat (parentIndex r)),
                             deltaRefIndex :=
                                (if deltaRefIndex r \<noteq> kNoParent K
                                 then the (oTN ! unat (deltaRefIndex r))
                                 else deltaRefIndex r)\<rparr>) rs)"
  using assms
proof (induction rs)
  case Nil
  show ?case by simp
next
  case (Cons r rs)
  then have IH: "fixIndexes K oP oTN rs = Inr (map (\<lambda>r. r\<lparr>parentIndex :=
                                (if oP ! unat (parentIndex r) \<noteq> kNoParent K
                                 then the (oTN ! unat (oP ! unat (parentIndex r)))
                                 else oP ! unat (parentIndex r)),
                             deltaRefIndex :=
                                (if deltaRefIndex r \<noteq> kNoParent K
                                 then the (oTN ! unat (deltaRefIndex r))
                                 else deltaRefIndex r)\<rparr>) rs)" by simp
  from Cons.prems have r: "unat (parentIndex r) < length oP"
    "oP ! unat (parentIndex r) \<noteq> kNoParent K \<Longrightarrow>
       unat (oP ! unat (parentIndex r)) < length oTN \<and>
       oTN ! unat (oP ! unat (parentIndex r)) \<noteq> None"
    "deltaRefIndex r \<noteq> kNoParent K \<Longrightarrow>
       unat (deltaRefIndex r) < length oTN \<and> oTN ! unat (deltaRefIndex r) \<noteq> None"
    by auto
  have p: "(if oP ! unat (parentIndex r) \<noteq> kNoParent K
            then readArray oTN (unat (oP ! unat (parentIndex r)))
            else Inr (oP ! unat (parentIndex r))) =
           Inr (if oP ! unat (parentIndex r) \<noteq> kNoParent K
                then the (oTN ! unat (oP ! unat (parentIndex r)))
                else oP ! unat (parentIndex r))"
  proof (cases "oP ! unat (parentIndex r) = kNoParent K")
    case True
    then show ?thesis by simp
  next
    case False
    from r(2)[OF this] obtain v where "oTN ! unat (oP ! unat (parentIndex r)) = Some v"
      and "unat (oP ! unat (parentIndex r)) < length oTN" by auto
    then show ?thesis using False by (simp add: readArray_def)
  qed
  have d: "(if deltaRefIndex r \<noteq> kNoParent K
            then readArray oTN (unat (deltaRefIndex r))
            else Inr (deltaRefIndex r)) =
           Inr (if deltaRefIndex r \<noteq> kNoParent K
                then the (oTN ! unat (deltaRefIndex r))
                else deltaRefIndex r)"
  proof (cases "deltaRefIndex r = kNoParent K")
    case True
    then show ?thesis by simp
  next
    case False
    from r(3)[OF this] obtain v where "oTN ! unat (deltaRefIndex r) = Some v"
      and "unat (deltaRefIndex r) < length oTN" by auto
    then show ?thesis using False by (simp add: readArray_def)
  qed
  show ?case
    unfolding fixIndexes.simps Let_def p d IH using r(1) by simp
qed

lemma Revision_less_indexes [simp]:
  "Revision_less K lt (a\<lparr>parentIndex := p, deltaRefIndex := d\<rparr>)
                      (b\<lparr>parentIndex := p', deltaRefIndex := d'\<rparr>) = Revision_less K lt a b"
  by (simp add: Revision_less_def isLeaf_def isDeleted_def)


lemma unat_lt_65536: "unat (w :: 16 word) < 65536"
  by (rule order_less_le_trans[OF unsigned_less]) simp

text \<open>The loops of \<open>sort\<close> after \<open>std::sort\<close>, on any permutation of the revisions with their positions.\<close>

lemma sort_permutation:
  assumes valid: "indexesValid K rs"
    and perm: "mset rs2 = mset (setCookies 0 rs)"
  shows "\<exists>f. bij_betw f {..<length rs} {..<length rs} \<and>
           (case buildOldToNew rs2 0 (replicate (length rs2) None) of
              Inl e \<Rightarrow> Inl e
            | Inr oldToNew \<Rightarrow> fixIndexes K (map parentIndex rs) oldToNew rs2)
           = Inr (map (\<lambda>r. r\<lparr>parentIndex :=
                                 renumber K f (parentIndex (rs ! unat (parentIndex r))),
                               deltaRefIndex := renumber K f (deltaRefIndex r)\<rparr>) rs2) \<and>
           (\<forall>i<length rs. rs2 ! f i = (rs ! i)\<lparr>parentIndex := of_nat i\<rparr>)"
proof -
  let ?n = "length rs"
  let ?rs1 = "setCookies 0 rs"
  have n: "?n \<le> unat (kNoParent K)" using valid by (simp add: indexesValid_def)
  have n16: "?n < 65536" using n unat_lt_65536[of "kNoParent K"] by simp
  have len2: "length rs2 = ?n" using perm mset_eq_length[OF perm] by simp
  have rs1_nth: "?rs1 ! i = (rs ! i)\<lparr>parentIndex := of_nat i\<rparr>" if "i < ?n" for i
    using nth_setCookies[OF that, of 0] by simp
  have cookie1: "unat (parentIndex (?rs1 ! i)) = i" if "i < ?n" for i
    using rs1_nth[OF that] that n16 by (simp add: unat_of_nat16)
  have d1: "distinct (map parentIndex ?rs1)"
  proof (rule distinct_conv_nth [THEN iffD2], intro allI impI)
    fix i j assume "i < length (map parentIndex ?rs1)" "j < length (map parentIndex ?rs1)" "i \<noteq> j"
    then have "unat (parentIndex (?rs1 ! i)) \<noteq> unat (parentIndex (?rs1 ! j))"
      using cookie1 by simp
    then show "map parentIndex ?rs1 ! i \<noteq> map parentIndex ?rs1 ! j"
      using \<open>i < _\<close> \<open>j < _\<close> by auto
  qed
  have "mset (map parentIndex rs2) = mset (map parentIndex ?rs1)"
    using perm by (metis mset_map)
  then have d2: "distinct (map parentIndex rs2)"
    using d1 mset_eq_imp_distinct_iff by blast
  define g where "g j = unat (parentIndex (rs2 ! j))" for j
  have g1: "g j < ?n \<and> rs2 ! j = ?rs1 ! g j" if "j < ?n" for j
  proof -
    have "rs2 ! j \<in> set ?rs1" using that len2 mset_eq_setD[OF perm] by (metis nth_mem)
    then obtain i where i: "i < ?n" "?rs1 ! i = rs2 ! j"
      by (auto simp: in_set_conv_nth)
    then have "g j = i" using cookie1[of i] by (simp add: g_def)
    then show ?thesis using i by simp
  qed
  have inj: "inj_on g {..<?n}"
  proof (rule inj_onI)
    fix j j' assume jj: "j \<in> {..<?n}" "j' \<in> {..<?n}" "g j = g j'"
    then have "parentIndex (rs2 ! j) = parentIndex (rs2 ! j')"
      by (simp add: g_def word_unat_eq_iff)
    then have "map parentIndex rs2 ! j = map parentIndex rs2 ! j'" using jj len2 by simp
    moreover have "j < length (map parentIndex rs2)" "j' < length (map parentIndex rs2)"
      using jj len2 by simp_all
    ultimately show "j = j'" using nth_eq_iff_index_eq[OF d2] by blast
  qed
  have img: "g ` {..<?n} = {..<?n}"
  proof (rule card_subset_eq)
    show "finite {..<?n}" by simp
    show "g ` {..<?n} \<subseteq> {..<?n}" using g1 by auto
    show "card (g ` {..<?n}) = card {..<?n}" using inj by (simp add: card_image)
  qed
  have bij_g: "bij_betw g {..<?n} {..<?n}" using inj img by (simp add: bij_betw_def)
  define f where "f = the_inv_into {..<?n} g"
  have bij_f: "bij_betw f {..<?n} {..<?n}"
    unfolding f_def using bij_g by (rule bij_betw_the_inv_into)
  have fg: "f (g j) = j" if "j < ?n" for j
    unfolding f_def using that inj by (simp add: the_inv_into_f_f)
  have gf: "g (f i) = i" and f_lt: "f i < ?n" if "i < ?n" for i
  proof -
    have "i \<in> g ` {..<?n}" using that img by simp
    then show "g (f i) = i" unfolding f_def using inj by (simp add: f_the_inv_into_f)
    show "f i < ?n" using bij_f that by (auto simp: bij_betw_def)
  qed
  have pre: "\<forall>r\<in>set rs2. unat (parentIndex r) < length (replicate (length rs2) (None :: 16 word option))"
  proof
    fix r assume "r \<in> set rs2"
    then obtain j where j: "j < ?n" "r = rs2 ! j" by (metis in_set_conv_nth len2)
    have "unat (parentIndex (rs2 ! j)) < ?n" using g1[OF j(1)] unfolding g_def by blast
    then show "unat (parentIndex r) < length (replicate (length rs2) (None :: 16 word option))"
      unfolding j(2) by (simp add: len2)
  qed
  from buildOldToNew_ok[OF pre d2, of 0] obtain oTN where
    oTN: "buildOldToNew rs2 0 (replicate (length rs2) None) = Inr oTN" "length oTN = ?n"
         "\<forall>j<?n. oTN ! g j = Some (of_nat j)"
    using len2 by (auto simp: g_def)
  have oTN_f: "oTN ! i = Some (of_nat (f i))" if "i < ?n" for i
    using oTN(3) f_lt[OF that] gf[OF that] by metis
  have ok: "p = kNoParent K \<or> unat p < ?n"
    if "p \<in> parentIndex ` set rs \<union> deltaRefIndex ` set rs" for p
    using that valid by (auto simp: indexesValid_def list_all_iff)
  have ren: "(if p \<noteq> kNoParent K then the (oTN ! unat p) else p) = renumber K f p"
    if "p = kNoParent K \<or> unat p < ?n" for p
    using that oTN_f by (auto simp: renumber_def)
  have elem: "unat (parentIndex r) < ?n \<and>
              parentIndex (rs ! unat (parentIndex r)) \<in> parentIndex ` set rs \<and>
              deltaRefIndex r \<in> deltaRefIndex ` set rs" if "r \<in> set rs2" for r
  proof -
    from that obtain j where j: "j < ?n" "r = rs2 ! j" by (metis in_set_conv_nth len2)
    from g1[OF j(1)] have gl: "g j < ?n" and r2: "rs2 ! j = ?rs1 ! g j" by blast+
    have r: "r = (rs ! g j)\<lparr>parentIndex := of_nat (g j)\<rparr>"
      unfolding j(2) r2 by (rule rs1_nth[OF gl])
    have u: "unat (parentIndex r) = g j" unfolding j(2) g_def ..
    have d: "deltaRefIndex r = deltaRefIndex (rs ! g j)" by (subst r) simp
    have m1: "parentIndex (rs ! g j) \<in> parentIndex ` set rs" using gl by simp
    have m2: "deltaRefIndex (rs ! g j) \<in> deltaRefIndex ` set rs" using gl by simp
    show ?thesis unfolding u d using gl m1 m2 by blast
  qed
  have fixpre: "\<forall>r\<in>set rs2. unat (parentIndex r) < length (map parentIndex rs) \<and>
             (map parentIndex rs ! unat (parentIndex r) \<noteq> kNoParent K \<longrightarrow>
                unat (map parentIndex rs ! unat (parentIndex r)) < length oTN \<and>
                oTN ! unat (map parentIndex rs ! unat (parentIndex r)) \<noteq> None) \<and>
             (deltaRefIndex r \<noteq> kNoParent K \<longrightarrow>
                unat (deltaRefIndex r) < length oTN \<and> oTN ! unat (deltaRefIndex r) \<noteq> None)"
  proof
    fix r assume r: "r \<in> set rs2"
    note e = elem[OF r]
    from e ok[of "parentIndex (rs ! unat (parentIndex r))"] ok[of "deltaRefIndex r"]
    show "unat (parentIndex r) < length (map parentIndex rs) \<and>
             (map parentIndex rs ! unat (parentIndex r) \<noteq> kNoParent K \<longrightarrow>
                unat (map parentIndex rs ! unat (parentIndex r)) < length oTN \<and>
                oTN ! unat (map parentIndex rs ! unat (parentIndex r)) \<noteq> None) \<and>
             (deltaRefIndex r \<noteq> kNoParent K \<longrightarrow>
                unat (deltaRefIndex r) < length oTN \<and> oTN ! unat (deltaRefIndex r) \<noteq> None)"
      using oTN(2) oTN_f by auto
  qed
  have maps: "map (\<lambda>r. r\<lparr>parentIndex :=
                  (if map parentIndex rs ! unat (parentIndex r) \<noteq> kNoParent K
                   then the (oTN ! unat (map parentIndex rs ! unat (parentIndex r)))
                   else map parentIndex rs ! unat (parentIndex r)),
                deltaRefIndex :=
                  (if deltaRefIndex r \<noteq> kNoParent K
                   then the (oTN ! unat (deltaRefIndex r))
                   else deltaRefIndex r)\<rparr>) rs2
            = map (\<lambda>r. r\<lparr>parentIndex :=
                                 renumber K f (parentIndex (rs ! unat (parentIndex r))),
                               deltaRefIndex := renumber K f (deltaRefIndex r)\<rparr>) rs2"
  proof (rule map_cong[OF refl])
    fix r assume r: "r \<in> set rs2"
    note e = elem[OF r]
    have a: "map parentIndex rs ! unat (parentIndex r) = parentIndex (rs ! unat (parentIndex r))"
      using e by simp
    show "r\<lparr>parentIndex :=
                  (if map parentIndex rs ! unat (parentIndex r) \<noteq> kNoParent K
                   then the (oTN ! unat (map parentIndex rs ! unat (parentIndex r)))
                   else map parentIndex rs ! unat (parentIndex r)),
                deltaRefIndex :=
                  (if deltaRefIndex r \<noteq> kNoParent K
                   then the (oTN ! unat (deltaRefIndex r))
                   else deltaRefIndex r)\<rparr>
          = r\<lparr>parentIndex := renumber K f (parentIndex (rs ! unat (parentIndex r))),
              deltaRefIndex := renumber K f (deltaRefIndex r)\<rparr>"
      unfolding a
      using ren[OF ok, of "parentIndex (rs ! unat (parentIndex r))"]
            ren[OF ok, of "deltaRefIndex r"] e
      by simp
  qed
  have res: "(case buildOldToNew rs2 0 (replicate (length rs2) None) of
              Inl e \<Rightarrow> Inl e
            | Inr oldToNew \<Rightarrow> fixIndexes K (map parentIndex rs) oldToNew rs2)
           = Inr (map (\<lambda>r. r\<lparr>parentIndex :=
                                 renumber K f (parentIndex (rs ! unat (parentIndex r))),
                               deltaRefIndex := renumber K f (deltaRefIndex r)\<rparr>) rs2)"
    unfolding oTN(1) using fixIndexes_ok[OF fixpre] maps by simp
  have pos: "\<forall>i<?n. rs2 ! f i = (rs ! i)\<lparr>parentIndex := of_nat i\<rparr>"
  proof (intro allI impI)
    fix i assume i: "i < ?n"
    from g1[OF f_lt[OF i]] gf[OF i] rs1_nth[OF i]
    show "rs2 ! f i = (rs ! i)\<lparr>parentIndex := of_nat i\<rparr>" by simp
  qed
  show ?thesis using bij_f res pos by blast
qed


text \<open>What \<open>sort\<close> returns on a tree that is not marked sorted.\<close>

lemma sort_closed_form:
  assumes "\<not> sortedFlag t" and "indexesValid K (revs t)"
    and "mset (stdsort (Revision_less K lt) (setCookies 0 (revs t))) = mset (setCookies 0 (revs t))"
    and "sorted_wrt (\<lambda>a b. \<not> Revision_less K lt b a)
           (stdsort (Revision_less K lt) (setCookies 0 (revs t)))"
  shows "\<exists>f t'. sort K stdsort lt t = Inr t' \<and> t' = t\<lparr>revs := revs t', sortedFlag := True\<rparr> \<and>
           length (revs t') = length (revs t) \<and>
           sorted_wrt (\<lambda>a b. \<not> Revision_less K lt b a) (revs t') \<and>
           bij_betw f {..<length (revs t)} {..<length (revs t)} \<and>
           (\<forall>i<length (revs t).
              revs t' ! f i =
                (revs t ! i)\<lparr>parentIndex := renumber K f (parentIndex (revs t ! i)),
                              deltaRefIndex := renumber K f (deltaRefIndex (revs t ! i))\<rparr> \<and>
              (parentIndex (revs t ! i) \<noteq> kNoParent K \<longrightarrow>
                 parentIndex (revs t' ! f i) \<noteq> kNoParent K \<and>
                 revID (revs t' ! unat (parentIndex (revs t' ! f i)))
                   = revID (revs t ! unat (parentIndex (revs t ! i)))) \<and>
              (deltaRefIndex (revs t ! i) \<noteq> kNoParent K \<longrightarrow>
                 deltaRefIndex (revs t' ! f i) \<noteq> kNoParent K \<and>
                 revID (revs t' ! unat (deltaRefIndex (revs t' ! f i)))
                   = revID (revs t ! unat (deltaRefIndex (revs t ! i)))) \<and>
              (\<forall>m. parentChainEnds m K (revs t') (f i) = parentChainEnds m K (revs t) i))"
proof -
  let ?rs = "revs t"
  let ?n = "length ?rs"
  let ?rs2 = "stdsort (Revision_less K lt) (setCookies 0 ?rs)"
  from sort_permutation[OF assms(2,3)] obtain f where
    bij: "bij_betw f {..<?n} {..<?n}"
    and res: "(case buildOldToNew ?rs2 0 (replicate (length ?rs2) None) of
                 Inl e \<Rightarrow> Inl e
               | Inr oldToNew \<Rightarrow> fixIndexes K (map parentIndex ?rs) oldToNew ?rs2)
              = Inr (map (\<lambda>r. r\<lparr>parentIndex :=
                                    renumber K f (parentIndex (?rs ! unat (parentIndex r))),
                                  deltaRefIndex := renumber K f (deltaRefIndex r)\<rparr>) ?rs2)"
    and pos: "\<forall>i<?n. ?rs2 ! f i = (?rs ! i)\<lparr>parentIndex := of_nat i\<rparr>"
    by blast
  define h where "h r = r\<lparr>parentIndex := renumber K f (parentIndex (?rs ! unat (parentIndex r))),
                            deltaRefIndex := renumber K f (deltaRefIndex r)\<rparr>" for r :: Revision
  define rs' where "rs' = map h ?rs2"
  have n: "?n \<le> unat (kNoParent K)" using assms(2) by (simp add: indexesValid_def)
  have n16: "?n < 65536" using n unat_lt_65536[of "kNoParent K"] by simp
  have len2: "length ?rs2 = ?n" using mset_eq_length[OF assms(3)] by simp
  have f_lt: "f i < ?n" if "i < ?n" for i using bij that by (auto simp: bij_betw_def)
  have sort_eq: "sort K stdsort lt t = Inr (t\<lparr>revs := rs', sortedFlag := True\<rparr>)"
  proof -
    have "(case buildOldToNew ?rs2 0 (replicate (length ?rs2) None) of
                 Inl e \<Rightarrow> Inl e
               | Inr oldToNew \<Rightarrow>
                   (case fixIndexes K (map parentIndex ?rs) oldToNew ?rs2 of
                      Inl e \<Rightarrow> Inl e
                    | Inr rs \<Rightarrow> Inr (t\<lparr>revs := rs, sortedFlag := True\<rparr>)))
          = Inr (t\<lparr>revs := rs', sortedFlag := True\<rparr>)"
      using res by (auto simp: rs'_def h_def split: sum.splits)
    then show ?thesis using assms(1) n16 len2 by (simp add: sort_def Let_def)
  qed
  have srt: "sorted_wrt (\<lambda>a b. \<not> Revision_less K lt b a) rs'"
    using assms(4) by (simp add: rs'_def sorted_wrt_map h_def)
  have ok: "p = kNoParent K \<or> unat p < ?n"
    if "p \<in> parentIndex ` set ?rs \<union> deltaRefIndex ` set ?rs" for p
    using that assms(2) by (auto simp: indexesValid_def list_all_iff)
  have nth': "rs' ! f i = (?rs ! i)\<lparr>parentIndex := renumber K f (parentIndex (?rs ! i)),
                                      deltaRefIndex := renumber K f (deltaRefIndex (?rs ! i))\<rparr>"
    if i: "i < ?n" for i
  proof -
    have "rs' ! f i = h (?rs2 ! f i)" using f_lt[OF i] len2 by (simp add: rs'_def)
    also have "\<dots> = h ((?rs ! i)\<lparr>parentIndex := of_nat i\<rparr>)" using pos i by simp
    finally show ?thesis using i n16 by (simp add: h_def unat_of_nat16)
  qed
  have ren: "renumber K f p \<noteq> kNoParent K \<and> unat (renumber K f p) = f (unat p)"
    if "p \<noteq> kNoParent K" "unat p < ?n" for p
  proof -
    have lt: "f (unat p) < ?n" using f_lt that(2) by simp
    then have u: "unat (of_nat (f (unat p)) :: 16 word) = f (unat p)"
      using n16 by (simp add: unat_of_nat16)
    then have "(of_nat (f (unat p)) :: 16 word) \<noteq> kNoParent K" using lt n by auto
    then show ?thesis using that(1) u by (simp add: renumber_def)
  qed
  have link_p: "parentIndex (rs' ! f i) \<noteq> kNoParent K \<and>
                revID (rs' ! unat (parentIndex (rs' ! f i))) = revID (?rs ! unat (parentIndex (?rs ! i)))"
    if i: "i < ?n" and p: "parentIndex (?rs ! i) \<noteq> kNoParent K" for i
  proof -
    have v: "unat (parentIndex (?rs ! i)) < ?n" using ok[of "parentIndex (?rs ! i)"] i p by simp
    from ren[OF p v] nth'[OF i] nth'[OF v] show ?thesis by simp
  qed
  have link_d: "deltaRefIndex (rs' ! f i) \<noteq> kNoParent K \<and>
                revID (rs' ! unat (deltaRefIndex (rs' ! f i))) = revID (?rs ! unat (deltaRefIndex (?rs ! i)))"
    if i: "i < ?n" and p: "deltaRefIndex (?rs ! i) \<noteq> kNoParent K" for i
  proof -
    have v: "unat (deltaRefIndex (?rs ! i)) < ?n" using ok[of "deltaRefIndex (?rs ! i)"] i p by simp
    from ren[OF p v] nth'[OF i] nth'[OF v] show ?thesis by simp
  qed
  have lenrs': "length rs' = ?n" by (simp add: rs'_def len2)
  have chain: "parentChainEnds m K rs' (f i) = parentChainEnds m K ?rs i" if "i < ?n" for m i
    using that
  proof (induction m arbitrary: i)
    case 0
    show ?case by simp
  next
    case (Suc m)
    show ?case
    proof (cases "parentIndex (?rs ! i) = kNoParent K")
      case True
      then have "parentIndex (rs' ! f i) = kNoParent K"
        using nth'[OF Suc.prems] by (simp add: renumber_def)
      then show ?thesis using True Suc.prems f_lt[OF Suc.prems] lenrs' by simp
    next
      case False
      have v: "unat (parentIndex (?rs ! i)) < ?n"
        using ok[of "parentIndex (?rs ! i)"] Suc.prems False by simp
      have "parentIndex (rs' ! f i) = renumber K f (parentIndex (?rs ! i))"
        using nth'[OF Suc.prems] by simp
      with ren[OF False v] have a: "parentIndex (rs' ! f i) \<noteq> kNoParent K"
        and b: "unat (parentIndex (rs' ! f i)) = f (unat (parentIndex (?rs ! i)))" by simp_all
      show ?thesis using False a b Suc.IH[OF v] Suc.prems f_lt[OF Suc.prems] lenrs' by simp
    qed
  qed
  show ?thesis
    apply (rule exI[of _ f])
    apply (rule exI[of _ "t\<lparr>revs := rs', sortedFlag := True\<rparr>"])
    using sort_eq srt bij nth' link_p link_d chain lenrs' by simp
qed


lemmas sort_eval = sort_def Revision_less_def isLeaf_def isDeleted_def readArray_def
  indexesValid_def revid_less_def revid_suffix_def generation_def
  tree_del_def tree_del_sorted_def rev_1a_def rev_2b_def rev_2b_deleted_def rev_3c_def
  rid_1a_def rid_2b_def rid_3c_def K0_def

text \<open>The comparison of \<open>Revision::operator<\<close>, read as the order of two revisions in the array.\<close>

lemma priority_rule:
  "(\<not> Revision_less K lt b a) =
   ((isLeaf K b \<longrightarrow> isLeaf K a) \<and>
    (isLeaf K a = isLeaf K b \<longrightarrow>
       (isDeleted K a \<longrightarrow> isDeleted K b) \<and>
       (isDeleted K a = isDeleted K b \<longrightarrow> \<not> lt (revID a) (revID b))))"
  by (auto simp: Revision_less_def)

text \<open>
  C5 (as the code has it). On a tree that is marked sorted, \<open>sort\<close> returns the tree as it
  is. On a tree that is not marked sorted and whose indexes are valid, with \<open>std::sort\<close>
  giving a permutation of the array that is ordered by the comparison, \<open>sort\<close> returns with
  the revisions in descending priority: no leaf after a revision that is not a leaf; of two
  revisions that both are or both are not leaves, no deleted one before one that is not
  deleted; and of two that agree in both flags, the earlier does not have the lower revision
  ID. Each revision moves from position \<open>i\<close> to position \<open>f i\<close> with its parent and delta
  reference indexes renumbered by \<open>f\<close>, a bijection on the positions, so that they denote
  the revisions with the same IDs as before, and a parent chain ends within \<open>m\<close> steps
  exactly when it did before.
\<close>

theorem sort_result:
  "(sortedFlag t \<longrightarrow> sort K stdsort lt t = Inr t) \<and>
   (\<not> sortedFlag t \<and> indexesValid K (revs t) \<and>
    mset (stdsort (Revision_less K lt) (setCookies 0 (revs t))) = mset (setCookies 0 (revs t)) \<and>
    sorted_wrt (\<lambda>a b. \<not> Revision_less K lt b a)
      (stdsort (Revision_less K lt) (setCookies 0 (revs t))) \<longrightarrow>
    (\<exists>f t'. sort K stdsort lt t = Inr t' \<and> t' = t\<lparr>revs := revs t', sortedFlag := True\<rparr> \<and>
           length (revs t') = length (revs t) \<and>
           sorted_wrt (\<lambda>a b. (isLeaf K b \<longrightarrow> isLeaf K a) \<and>
                              (isLeaf K a = isLeaf K b \<longrightarrow>
                                 (isDeleted K a \<longrightarrow> isDeleted K b) \<and>
                                 (isDeleted K a = isDeleted K b \<longrightarrow>
                                    \<not> lt (revID a) (revID b))))
             (revs t') \<and>
           bij_betw f {..<length (revs t)} {..<length (revs t)} \<and>
           (\<forall>i<length (revs t).
              revs t' ! f i =
                (revs t ! i)\<lparr>parentIndex := renumber K f (parentIndex (revs t ! i)),
                              deltaRefIndex := renumber K f (deltaRefIndex (revs t ! i))\<rparr> \<and>
              (parentIndex (revs t ! i) \<noteq> kNoParent K \<longrightarrow>
                 parentIndex (revs t' ! f i) \<noteq> kNoParent K \<and>
                 revID (revs t' ! unat (parentIndex (revs t' ! f i)))
                   = revID (revs t ! unat (parentIndex (revs t ! i)))) \<and>
              (deltaRefIndex (revs t ! i) \<noteq> kNoParent K \<longrightarrow>
                 deltaRefIndex (revs t' ! f i) \<noteq> kNoParent K \<and>
                 revID (revs t' ! unat (deltaRefIndex (revs t' ! f i)))
                   = revID (revs t ! unat (deltaRefIndex (revs t ! i)))) \<and>
              (\<forall>m. parentChainEnds m K (revs t') (f i) = parentChainEnds m K (revs t) i))))"
proof (intro conjI impI)
  assume "sortedFlag t"
  then show "sort K stdsort lt t = Inr t" by (simp add: sort_def)
next
  assume a: "\<not> sortedFlag t \<and> indexesValid K (revs t) \<and>
    mset (stdsort (Revision_less K lt) (setCookies 0 (revs t))) = mset (setCookies 0 (revs t)) \<and>
    sorted_wrt (\<lambda>a b. \<not> Revision_less K lt b a)
      (stdsort (Revision_less K lt) (setCookies 0 (revs t)))"
  then have a1: "\<not> sortedFlag t" and a2: "indexesValid K (revs t)"
    and a3: "mset (stdsort (Revision_less K lt) (setCookies 0 (revs t))) = mset (setCookies 0 (revs t))"
    and a4: "sorted_wrt (\<lambda>a b. \<not> Revision_less K lt b a)
      (stdsort (Revision_less K lt) (setCookies 0 (revs t)))"
    by simp_all
  from sort_closed_form[where t=t and K=K and stdsort=stdsort and lt=lt, OF a1 a2 a3 a4]
  show "\<exists>f t'. sort K stdsort lt t = Inr t' \<and> t' = t\<lparr>revs := revs t', sortedFlag := True\<rparr> \<and>
           length (revs t') = length (revs t) \<and>
           sorted_wrt (\<lambda>a b. (isLeaf K b \<longrightarrow> isLeaf K a) \<and>
                              (isLeaf K a = isLeaf K b \<longrightarrow>
                                 (isDeleted K a \<longrightarrow> isDeleted K b) \<and>
                                 (isDeleted K a = isDeleted K b \<longrightarrow>
                                    \<not> lt (revID a) (revID b))))
             (revs t') \<and>
           bij_betw f {..<length (revs t)} {..<length (revs t)} \<and>
           (\<forall>i<length (revs t).
              revs t' ! f i =
                (revs t ! i)\<lparr>parentIndex := renumber K f (parentIndex (revs t ! i)),
                              deltaRefIndex := renumber K f (deltaRefIndex (revs t ! i))\<rparr> \<and>
              (parentIndex (revs t ! i) \<noteq> kNoParent K \<longrightarrow>
                 parentIndex (revs t' ! f i) \<noteq> kNoParent K \<and>
                 revID (revs t' ! unat (parentIndex (revs t' ! f i)))
                   = revID (revs t ! unat (parentIndex (revs t ! i)))) \<and>
              (deltaRefIndex (revs t ! i) \<noteq> kNoParent K \<longrightarrow>
                 deltaRefIndex (revs t' ! f i) \<noteq> kNoParent K \<and>
                 revID (revs t' ! unat (deltaRefIndex (revs t' ! f i)))
                   = revID (revs t ! unat (deltaRefIndex (revs t ! i)))) \<and>
              (\<forall>m. parentChainEnds m K (revs t') (f i) = parentChainEnds m K (revs t) i))"
    unfolding priority_rule .
qed

theorem sort_result_witness:
  "\<not> sortedFlag tree_del \<and> indexesValid K0 (revs tree_del) \<and>
   mset (insertionSort (Revision_less K0 revid_less) (setCookies 0 (revs tree_del)))
     = mset (setCookies 0 (revs tree_del)) \<and>
   sorted_wrt (\<lambda>a b. \<not> Revision_less K0 revid_less b a)
     (insertionSort (Revision_less K0 revid_less) (setCookies 0 (revs tree_del))) \<and>
   sort K0 insertionSort revid_less tree_del = Inr tree_del_sorted \<and>
   sortedFlag tree_del_sorted \<and>
   sort K0 insertionSort revid_less tree_del_sorted = Inr tree_del_sorted"
  using sort_result [of tree_del K0 insertionSort revid_less]
    sort_result [of tree_del_sorted K0 insertionSort revid_less]
  by (simp add: sort_eval)

text \<open>
  C5 as stated fails: \<open>1-a\<close> and \<open>2-b\<close> are not leaves and \<open>2-b\<close> has the higher
  revision ID, but \<open>2-b\<close> is deleted and \<open>1-a\<close> is not, so \<open>1-a\<close> has the higher priority
  and comes first.
\<close>

theorem sort_result_counterexample:
  "\<not> isLeaf K0 rev_1a \<and> \<not> isLeaf K0 rev_2b_deleted \<and> revid_less rid_1a rid_2b \<and>
   Revision_less K0 revid_less rev_1a rev_2b_deleted \<and>
   \<not> Revision_less K0 revid_less rev_2b_deleted rev_1a \<and>
   map revID (revs tree_del_sorted) = [rid_3c, rid_1a, rid_2b] \<and>
   sort K0 insertionSort revid_less tree_del = Inr tree_del_sorted"
  by (simp add: sort_eval)

subsection \<open>Round trip\<close>




















lemma encodable_indexes [simp]:
  "encodable V (r\<lparr>parentIndex := p, deltaRefIndex := d\<rparr>) = encodable V r"
  by (simp add: encodable_def sizeToWrite_def Let_def)







subsection \<open>Pruning\<close>


lemma parentChainEnds_lt: "parentChainEnds m K rs v \<Longrightarrow> v < length rs"
  by (cases m) simp_all











































end
